theory Spec2Isabelle
  imports Complex_Main
begin

section \<open>Numbers, exceptions and arrays\<close>

text \<open>
  The two modules compute with numpy float64 values.  A float is a finite value, given
  by the real number it denotes, an infinity or the not-a-number value; zero carries no
  sign (it is read as +0).  The inputs of the functions (positions, box sides, bin
  edges) are finite.

  The operations below are the unrounded ones: on finite operands they return the exact
  result, and on the other operands what IEEE arithmetic returns, as numpy does when a
  division by zero occurs.
\<close>

datatype fl = Fin real | Infty bool | NaN

fun fl_neg :: "fl \<Rightarrow> fl" where
  "fl_neg (Fin a) = Fin (- a)"
| "fl_neg (Infty s) = Infty (\<not> s)"
| "fl_neg NaN = NaN"

fun fl_add :: "fl \<Rightarrow> fl \<Rightarrow> fl" where
  "fl_add (Fin a) (Fin b) = Fin (a + b)"
| "fl_add (Fin a) (Infty t) = Infty t"
| "fl_add (Infty s) (Fin b) = Infty s"
| "fl_add (Infty s) (Infty t) = (if s = t then Infty s else NaN)"
| "fl_add NaN b = NaN"
| "fl_add a NaN = NaN"

definition fl_sub :: "fl \<Rightarrow> fl \<Rightarrow> fl" where
  "fl_sub a b = fl_add a (fl_neg b)"

fun fl_mul :: "fl \<Rightarrow> fl \<Rightarrow> fl" where
  "fl_mul (Fin a) (Fin b) = Fin (a * b)"
| "fl_mul (Fin a) (Infty t) = (if a = 0 then NaN else Infty (t = (0 < a)))"
| "fl_mul (Infty s) (Fin b) = (if b = 0 then NaN else Infty (s = (0 < b)))"
| "fl_mul (Infty s) (Infty t) = Infty (s = t)"
| "fl_mul NaN b = NaN"
| "fl_mul a NaN = NaN"

fun fl_div :: "fl \<Rightarrow> fl \<Rightarrow> fl" where
  "fl_div (Fin a) (Fin b) =
     (if b \<noteq> 0 then Fin (a / b) else if a = 0 then NaN else Infty (0 < a))"
| "fl_div (Fin a) (Infty t) = Fin 0"
| "fl_div (Infty s) (Fin b) = Infty (s = (0 \<le> b))"
| "fl_div (Infty s) (Infty t) = NaN"
| "fl_div NaN b = NaN"
| "fl_div a NaN = NaN"

text \<open>\<open>numpy.rint\<close>: the nearest integer, a tie going to the even neighbour.\<close>

definition rint :: "real \<Rightarrow> int" where
  "rint a = (if frac a = 1 / 2 \<and> even \<lfloor>a\<rfloor> then \<lfloor>a\<rfloor> else round a)"

fun fl_rint :: "fl \<Rightarrow> fl" where
  "fl_rint (Fin a) = Fin (of_int (rint a))"
| "fl_rint (Infty s) = Infty s"
| "fl_rint NaN = NaN"

text \<open>
  Float64 rounds the result of every operation.  A rounding is the function that takes
  the exact result of an operation on finite operands to the float the operation
  returns: a finite value, or an infinity when the result overflows.  The rounded
  operations apply it to the exact result; on operands that are not finite, and for a
  division by zero, nothing is rounded.
\<close>

type_synonym rounding = "real \<Rightarrow> fl"

fun radd :: "rounding \<Rightarrow> fl \<Rightarrow> fl \<Rightarrow> fl" where
  "radd rd (Fin a) (Fin b) = rd (a + b)"
| "radd rd a b = fl_add a b"

definition rsub :: "rounding \<Rightarrow> fl \<Rightarrow> fl \<Rightarrow> fl" where
  "rsub rd a b = radd rd a (fl_neg b)"

fun rmul :: "rounding \<Rightarrow> fl \<Rightarrow> fl \<Rightarrow> fl" where
  "rmul rd (Fin a) (Fin b) = rd (a * b)"
| "rmul rd a b = fl_mul a b"

fun rdiv :: "rounding \<Rightarrow> fl \<Rightarrow> fl \<Rightarrow> fl" where
  "rdiv rd (Fin a) (Fin b) = (if b = 0 then fl_div (Fin a) (Fin b) else rd (a / b))"
| "rdiv rd a b = fl_div a b"

fun rsqrt :: "rounding \<Rightarrow> fl \<Rightarrow> fl" where
  "rsqrt rd (Fin a) = (if a < 0 then NaN else rd (sqrt a))"
| "rsqrt rd (Infty s) = (if s then Infty True else NaN)"
| "rsqrt rd NaN = NaN"

text \<open>
  The arithmetic the two kernels run on: the rounding of one operation, and
  \<open>numpy.add.reduce\<close>, the sum of the entries of an array, which numpy adds up in an
  order of its own (pairwise, in blocks).  Both are parameters of the kernels, so that
  what is proved of a kernel for every arithmetic holds of the float64 one.
\<close>

record fpu =
  rnd :: rounding
  reduce_add :: "fl list \<Rightarrow> fl"

text \<open>Adding from left to right, as numpy does for fewer than 8 entries.\<close>

definition seq_sum :: "rounding \<Rightarrow> fl list \<Rightarrow> fl" where
  "seq_sum rd vs = foldl (radd rd) (Fin 0) vs"

text \<open>The arithmetic without rounding.\<close>

definition exact_fpu :: fpu where
  "exact_fpu = \<lparr>rnd = Fin, reduce_add = seq_sum Fin\<rparr>"

text \<open>
  The rounding of IEEE binary64, to the nearest value with a significand of 53 bits,
  a tie going to the even one: the unit in the last place of a result whose binary
  exponent is \<open>e\<close> (not below -1022, where the subnormal values begin) is
  \<open>2 powr (e - 52)\<close>, and a rounded result of \<open>2 ^ 1024\<close> or more is an infinity.
\<close>

definition binary64 :: rounding where
  "binary64 x =
     (if x = 0 then Fin 0
      else
        (let e = min 1023 (max (- 1022) \<lfloor>log 2 \<bar>x\<bar>\<rfloor>);
             u = 2 powr (real_of_int e - 52);
             m = real_of_int (rint (x / u)) * u
         in if 2 ^ 1024 \<le> \<bar>m\<bar> then Infty (0 < x) else Fin m))"

definition np64 :: fpu where
  "np64 = \<lparr>rnd = binary64, reduce_add = seq_sum binary64\<rparr>"

text \<open>The exceptions the modelled code can raise.\<close>

datatype exn = ValueError | ZeroDivisionError | IndexError | Exception string

text \<open>
  A two-dimensional numpy array: its rows, and its second dimension, which an array with
  no row still has.  \<open>len(a)\<close> and \<open>a.shape[0]\<close> are the number of rows.
\<close>

record 'a ndarray =
  ncols :: nat
  rows :: "'a list list"

definition wf_array :: "'a ndarray \<Rightarrow> bool" where
  "wf_array a = list_all (\<lambda>r. length r = ncols a) (rows a)"

definition nrows :: "'a ndarray \<Rightarrow> nat" where
  "nrows a = length (rows a)"

text \<open>
  numpy's broadcasting of one axis: two lengths agree when they are equal or one of them
  is 1, and the axis of length 1 is repeated.
\<close>

definition bdim :: "nat \<Rightarrow> nat \<Rightarrow> nat option" where
  "bdim a b = (if a = b then Some a else if a = 1 then Some b
               else if b = 1 then Some a else None)"

definition bvec :: "nat \<Rightarrow> 'a list \<Rightarrow> 'a list" where
  "bvec d v = (if length v = d then v else replicate d (v ! 0))"

text \<open>An elementwise operation of a 2-d array and a 1-d array, and of two 2-d arrays.\<close>

definition ew_vec :: "('a \<Rightarrow> 'b \<Rightarrow> 'c) \<Rightarrow> 'a ndarray \<Rightarrow> 'b list \<Rightarrow> exn + 'c ndarray" where
  "ew_vec f a v =
     (case bdim (ncols a) (length v) of
        None \<Rightarrow> Inl ValueError
      | Some d \<Rightarrow>
          Inr \<lparr>ncols = d, rows = map (\<lambda>r. map2 f (bvec d r) (bvec d v)) (rows a)\<rparr>)"

definition ew_arr :: "('a \<Rightarrow> 'b \<Rightarrow> 'c) \<Rightarrow> 'a ndarray \<Rightarrow> 'b ndarray \<Rightarrow> exn + 'c ndarray" where
  "ew_arr f a b =
     (case bdim (nrows a) (nrows b) of
        None \<Rightarrow> Inl ValueError
      | Some n \<Rightarrow>
         (case bdim (ncols a) (ncols b) of
            None \<Rightarrow> Inl ValueError
          | Some d \<Rightarrow>
              Inr \<lparr>ncols = d,
                   rows = map2 (\<lambda>r s. map2 f (bvec d r) (bvec d s))
                            (bvec n (rows a)) (bvec n (rows b))\<rparr>))"

definition amap :: "('a \<Rightarrow> 'b) \<Rightarrow> 'a ndarray \<Rightarrow> 'b ndarray" where
  "amap f a = \<lparr>ncols = ncols a, rows = map (map f) (rows a)\<rparr>"

text \<open>\<open>numpy.sum(a)\<close> and \<open>numpy.sum(a, axis=1)\<close>.\<close>

definition np_sum :: "fpu \<Rightarrow> fl ndarray \<Rightarrow> fl" where
  "np_sum fp a = reduce_add fp (concat (rows a))"

definition np_sum_axis1 :: "fpu \<Rightarrow> fl ndarray \<Rightarrow> fl list" where
  "np_sum_axis1 fp a = map (reduce_add fp) (rows a)"

section \<open>alpha2.py: the non-Gaussian parameter\<close>

text \<open>
  \<open>non_gaussian_parameter(x, y)\<close>.  The test \<open>x is y\<close> compares the identity of
  the two objects, so an argument is an object: its identity and the array it holds.
  Both divisions by \<open>float(x.shape[0])\<close> and the final division are numpy scalar
  divisions: a zero divisor gives inf or nan, never an exception.  The number of rows
  converts to a float without rounding (it is far below \<open>2 ^ 53\<close>), and
  \<open>dr2**2\<close> is the rounded product of \<open>dr2\<close> with itself.
\<close>

type_synonym obj = "nat \<times> real ndarray"

definition non_gaussian_parameter :: "fpu \<Rightarrow> obj \<Rightarrow> obj \<Rightarrow> exn + fl" where
  "non_gaussian_parameter fp x y =
     (if fst x = fst y then Inr (Fin 0)
      else
        (case ew_arr (\<lambda>a b. rsub (rnd fp) (Fin a) (Fin b)) (snd x) (snd y) of
           Inl e \<Rightarrow> Inl e
         | Inr d \<Rightarrow>
            (let dx2 = amap (\<lambda>v. rmul (rnd fp) v v) d;
                 dr2 = rdiv (rnd fp) (np_sum fp dx2) (Fin (real (nrows (snd x))));
                 dr4 = rdiv (rnd fp)
                         (reduce_add fp (map (\<lambda>s. rmul (rnd fp) s s) (np_sum_axis1 fp dx2)))
                         (Fin (real (nrows (snd x))))
             in Inr (rsub (rnd fp)
                       (rdiv (rnd fp) (rmul (rnd fp) (Fin 3) dr4)
                                      (rmul (rnd fp) (Fin 5) (rmul (rnd fp) dr2 dr2)))
                       (Fin 1)))))"

text \<open>
  The quantities of the specification, as real numbers: the squared norm of the
  displacement of one particle, and the second and fourth moments over the \<open>N\<close>
  particles.
\<close>

definition sq_disp :: "real list \<Rightarrow> real list \<Rightarrow> real" where
  "sq_disp a b = sum_list (map2 (\<lambda>u v. (u - v) ^ 2) a b)"

definition dr2_spec :: "real ndarray \<Rightarrow> real ndarray \<Rightarrow> real" where
  "dr2_spec x y = sum_list (map2 sq_disp (rows x) (rows y)) / real (nrows x)"

definition dr4_spec :: "real ndarray \<Rightarrow> real ndarray \<Rightarrow> real" where
  "dr4_spec x y =
     sum_list (map2 (\<lambda>a b. (sq_disp a b) ^ 2) (rows x) (rows y)) / real (nrows x)"

text \<open>
  The same two moments as floats: the rounded squares of the rounded differences, the
  sum of all of them for \<open>dr2\<close>, the sum of the squares of the sums of each particle
  for \<open>dr4\<close>, both divided by \<open>N\<close>.
\<close>

definition sq_diffs :: "fpu \<Rightarrow> real list \<Rightarrow> real list \<Rightarrow> fl list" where
  "sq_diffs fp a b =
     map2 (\<lambda>u v. rmul (rnd fp) (rsub (rnd fp) (Fin u) (Fin v)) (rsub (rnd fp) (Fin u) (Fin v))) a b"

definition dr2_float :: "fpu \<Rightarrow> real ndarray \<Rightarrow> real ndarray \<Rightarrow> fl" where
  "dr2_float fp x y =
     rdiv (rnd fp) (reduce_add fp (concat (map2 (sq_diffs fp) (rows x) (rows y))))
          (Fin (real (nrows x)))"

definition dr4_float :: "fpu \<Rightarrow> real ndarray \<Rightarrow> real ndarray \<Rightarrow> fl" where
  "dr4_float fp x y =
     rdiv (rnd fp)
       (reduce_add fp
          (map2 (\<lambda>a b. rmul (rnd fp) (reduce_add fp (sq_diffs fp a b))
                                     (reduce_add fp (sq_diffs fp a b)))
                (rows x) (rows y)))
       (Fin (real (nrows x)))"

text \<open>
  \<open>NonGaussianParameter.analyze\<close>.  The object holds the curve \<open>(grid, value)\<close> and
  the dictionary \<open>results\<close>.  \<open>ifabsmm\<close> is imported from the helpers module
  inside the \<open>try\<close>; here it is a parameter, a function that returns the sequence
  of its extrema reports or raises (a failing import of it is one more way to raise).
  The right-hand side \<open>ifabsmm(self.grid, self.value)[1]\<close> is evaluated and unpacked
  before either entry of the dictionary is stored.
\<close>

record ngp =
  ngp_grid :: "real list"
  ngp_value :: "fl list"
  results :: "string \<rightharpoonup> fl"

type_synonym extrema = "real list \<Rightarrow> fl list \<Rightarrow> exn + (fl \<times> fl) list"

definition secondary_statistic :: "extrema \<Rightarrow> ngp \<Rightarrow> exn + fl \<times> fl" where
  "secondary_statistic ifabsmm self =
     (case ifabsmm (ngp_grid self) (ngp_value self) of
        Inl e \<Rightarrow> Inl e
      | Inr report \<Rightarrow> if 1 < length report then Inr (report ! 1) else Inl IndexError)"

definition analyze :: "extrema \<Rightarrow> ngp \<Rightarrow> exn + ngp" where
  "analyze ifabsmm self =
     (case secondary_statistic ifabsmm self of
        Inl e \<Rightarrow> Inr self
      | Inr (t_star, a2_star) \<Rightarrow>
          Inr (self\<lparr>results := (results self)(''t_star'' \<mapsto> t_star, ''a2_star'' \<mapsto> a2_star)\<rparr>))"

section \<open>gr.py: the periodic distance kernel\<close>

text \<open>
  \<open>gr_kernel(x, y, L)\<close> is called with the rows \<open>x\<close> of a position array, one
  position \<open>y\<close> and the box sides \<open>L\<close>.  Every operation of its three lines is
  rounded; \<open>numpy.rint\<close> returns an integer and rounds nothing more.  The line
  \<open>r = r - numpy.rint(r/L) * L\<close> divides by the sides: a side equal to zero gives
  inf or nan there, which the following operations carry along.
\<close>

definition minimum_image :: "fpu \<Rightarrow> fl ndarray \<Rightarrow> real list \<Rightarrow> exn + fl ndarray" where
  "minimum_image fp r L =
     (case ew_vec (\<lambda>a l. rdiv (rnd fp) a (Fin l)) r L of
        Inl e \<Rightarrow> Inl e
      | Inr q \<Rightarrow>
         (case ew_vec (\<lambda>a l. rmul (rnd fp) a (Fin l)) (amap fl_rint q) L of
            Inl e \<Rightarrow> Inl e
          | Inr m \<Rightarrow> ew_arr (\<lambda>a b. rsub (rnd fp) a b) r m))"

definition sum_sq_axis1 :: "fpu \<Rightarrow> fl ndarray \<Rightarrow> fl list" where
  "sum_sq_axis1 fp r = map (\<lambda>row. reduce_add fp (map (\<lambda>v. rmul (rnd fp) v v) row)) (rows r)"

definition gr_kernel :: "fpu \<Rightarrow> real ndarray \<Rightarrow> real list \<Rightarrow> real list \<Rightarrow> exn + fl list" where
  "gr_kernel fp x y L =
     (case ew_vec (\<lambda>a b. rsub (rnd fp) (Fin a) (Fin b)) x y of
        Inl e \<Rightarrow> Inl e
      | Inr r \<Rightarrow>
         (case minimum_image fp r L of
            Inl e \<Rightarrow> Inl e
          | Inr r' \<Rightarrow> Inr (map (rsqrt (rnd fp)) (sum_sq_axis1 fp r'))))"

definition gr_kernel_square :: "fpu \<Rightarrow> real ndarray \<Rightarrow> real list \<Rightarrow> real list
    \<Rightarrow> exn + fl list" where
  "gr_kernel_square fp x y L =
     (case ew_vec (\<lambda>a b. rsub (rnd fp) (Fin a) (Fin b)) x y of
        Inl e \<Rightarrow> Inl e
      | Inr r \<Rightarrow>
         (case minimum_image fp r L of
            Inl e \<Rightarrow> Inl e
          | Inr r' \<Rightarrow> Inr (sum_sq_axis1 fp r')))"

text \<open>
  The wrapped displacement of one component, as the line computes it from the
  difference \<open>d\<close> and the side \<open>l\<close>.
\<close>

definition wrapped :: "fpu \<Rightarrow> real \<Rightarrow> real \<Rightarrow> fl" where
  "wrapped fp d l =
     rsub (rnd fp) (Fin d) (rmul (rnd fp) (fl_rint (rdiv (rnd fp) (Fin d) (Fin l))) (Fin l))"

section \<open>gr.py: the pair histograms\<close>

text \<open>
  \<open>numpy.histogram(a, bins)\<close> with an array of bin edges, as numpy computes it: the
  edges must not decrease (ValueError otherwise); the cumulative count at an edge is the
  number of values below it, at the last edge the number of values below or equal to it
  (\<open>searchsorted\<close> on the sorted values, where nan sorts after everything); the counts
  are the differences of neighbouring cumulative counts.  So every bin is half-open but
  the last one, which is closed.
\<close>

fun fl_lt :: "fl \<Rightarrow> real \<Rightarrow> bool" where
  "fl_lt (Fin v) e = (v < e)"
| "fl_lt (Infty s) e = (\<not> s)"
| "fl_lt NaN e = False"

fun fl_le :: "fl \<Rightarrow> real \<Rightarrow> bool" where
  "fl_le (Fin v) e = (v \<le> e)"
| "fl_le (Infty s) e = (\<not> s)"
| "fl_le NaN e = False"

definition search_sorted_inclusive :: "fl list \<Rightarrow> real list \<Rightarrow> int list" where
  "search_sorted_inclusive a v =
     map (\<lambda>e. int (length (filter (\<lambda>x. fl_lt x e) a))) (butlast v)
     @ map (\<lambda>e. int (length (filter (\<lambda>x. fl_le x e) a))) (drop (length v - 1) v)"

definition np_diff :: "int list \<Rightarrow> int list" where
  "np_diff c = map2 (\<lambda>hi lo. hi - lo) (tl c) (butlast c)"

definition counts :: "fl list \<Rightarrow> real list \<Rightarrow> int list" where
  "counts a bins = np_diff (search_sorted_inclusive a bins)"

definition histogram :: "fl list \<Rightarrow> real list \<Rightarrow> exn + int list" where
  "histogram a bins = (if sorted bins then Inr (counts a bins) else Inl ValueError)"

definition hist_add :: "int list \<Rightarrow> int list \<Rightarrow> int list" where
  "hist_add hist hist_tmp = map2 (\<lambda>a b. a + b) hist hist_tmp"

type_synonym kernel = "real ndarray \<Rightarrow> real list \<Rightarrow> real list \<Rightarrow> exn + fl list"

definition slice_from :: "nat \<Rightarrow> 'a ndarray \<Rightarrow> 'a ndarray" where
  "slice_from i x = \<lparr>ncols = ncols x, rows = drop i (rows x)\<rparr>"

text \<open>
  The inner loop of \<open>pairs_newton_hist\<close>: the values \<open>f(x[i+1:], y[i], L)\<close> for the
  indices of one batch, appended to \<open>fxy\<close> in order.
\<close>

fun batch_values :: "kernel \<Rightarrow> real ndarray \<Rightarrow> real ndarray \<Rightarrow> real list \<Rightarrow> nat list
    \<Rightarrow> exn + fl list" where
  "batch_values f x y L [] = Inr []"
| "batch_values f x y L (i # is) =
     (if nrows y \<le> i then Inl IndexError
      else
        (case f (slice_from (i + 1) x) (rows y ! i) L of
           Inl e \<Rightarrow> Inl e
         | Inr vs \<Rightarrow>
            (case batch_values f x y L is of
               Inl e \<Rightarrow> Inl e
             | Inr fxy \<Rightarrow> Inr (vs @ fxy))))"

text \<open>
  The outer loop \<open>for ib in range(0, len(y)-1, bl)\<close>, with the batch length \<open>bl\<close>
  as an argument; \<open>range\<close> refuses a step of zero.
\<close>

function newton_loop :: "kernel \<Rightarrow> real ndarray \<Rightarrow> real ndarray \<Rightarrow> real list \<Rightarrow> real list
    \<Rightarrow> nat \<Rightarrow> nat \<Rightarrow> int list \<Rightarrow> exn + int list" where
  "newton_loop f x y L bins bl ib hist =
     (if bl = 0 then Inl ValueError
      else if ib < nrows y - 1 then
        (case batch_values f x y L [ib ..< min (ib + bl) (nrows y - 1)] of
           Inl e \<Rightarrow> Inl e
         | Inr fxy \<Rightarrow>
            (case histogram fxy bins of
               Inl e \<Rightarrow> Inl e
             | Inr hist_tmp \<Rightarrow>
                 newton_loop f x y L bins bl (ib + bl) (hist_add hist hist_tmp)))
      else Inr hist)"
  by pat_completeness auto
termination
  by (relation "measure (\<lambda>(f, x, y, L, bins, bl, ib, hist). nrows y - 1 - ib)") auto

declare newton_loop.simps [simp del]

text \<open>
  \<open>pairs_newton_hist(f, x, y, L, bins)\<close>.  The batch length is
  \<open>max(1, int(100 * 1000.0 / len(y)))\<close>: the float division raises ZeroDivisionError
  when \<open>y\<close> is empty, and otherwise \<open>int\<close> truncates the quotient, which is the
  integer quotient of 100000 by \<open>len(y)\<close>.
\<close>

definition batch_length :: "real ndarray \<Rightarrow> exn + nat" where
  "batch_length y =
     (if nrows y = 0 then Inl ZeroDivisionError else Inr (max 1 (100000 div nrows y)))"

definition pairs_newton_hist :: "kernel \<Rightarrow> real ndarray \<Rightarrow> real ndarray \<Rightarrow> real list
    \<Rightarrow> real list \<Rightarrow> exn + int list" where
  "pairs_newton_hist f x y L bins =
     (case histogram [] bins of
        Inl e \<Rightarrow> Inl e
      | Inr hist \<Rightarrow>
         (case batch_length y of
            Inl e \<Rightarrow> Inl e
          | Inr bl \<Rightarrow> newton_loop f x y L bins bl 0 hist))"

text \<open>
  The same function with the batch length given instead of computed, to compare batch
  lengths with one another.
\<close>

definition pairs_newton_hist_batched :: "nat \<Rightarrow> kernel \<Rightarrow> real ndarray \<Rightarrow> real ndarray
    \<Rightarrow> real list \<Rightarrow> real list \<Rightarrow> exn + int list" where
  "pairs_newton_hist_batched bl f x y L bins =
     (case histogram [] bins of
        Inl e \<Rightarrow> Inl e
      | Inr hist \<Rightarrow> newton_loop f x y L bins bl 0 hist)"

text \<open>\<open>pairs_hist(f, x, y, L, bins)\<close>: every \<open>y[i]\<close> against all of \<open>x\<close>.\<close>

fun cross_loop :: "kernel \<Rightarrow> real ndarray \<Rightarrow> real ndarray \<Rightarrow> real list \<Rightarrow> real list
    \<Rightarrow> nat list \<Rightarrow> int list \<Rightarrow> exn + int list" where
  "cross_loop f x y L bins [] hist = Inr hist"
| "cross_loop f x y L bins (i # is) hist =
     (if nrows y \<le> i then Inl IndexError
      else
        (case f x (rows y ! i) L of
           Inl e \<Rightarrow> Inl e
         | Inr fxy \<Rightarrow>
            (case histogram fxy bins of
               Inl e \<Rightarrow> Inl e
             | Inr hist_tmp \<Rightarrow> cross_loop f x y L bins is (hist_add hist hist_tmp))))"

definition pairs_hist :: "kernel \<Rightarrow> real ndarray \<Rightarrow> real ndarray \<Rightarrow> real list
    \<Rightarrow> real list \<Rightarrow> exn + int list" where
  "pairs_hist f x y L bins =
     (case histogram [] bins of
        Inl e \<Rightarrow> Inl e
      | Inr hist \<Rightarrow> cross_loop f x y L bins [0 ..< nrows y] hist)"

text \<open>
  The brute-force computation the Newton-symmetric histogram is compared with: the full
  square of index pairs \<open>(i, j)\<close>, as \<open>pairs_hist\<close> runs through it, cut down to
  \<open>i < j\<close>, the kernel being called for one pair at a time, on the row
  \<open>x[j:j+1]\<close> and the position \<open>y[i]\<close>.  The values are gathered in order, and an
  exception of the kernel ends the computation.
\<close>

definition one_row :: "'a ndarray \<Rightarrow> nat \<Rightarrow> 'a ndarray" where
  "one_row x j = \<lparr>ncols = ncols x, rows = [rows x ! j]\<rparr>"

fun gather :: "(exn + 'a list) list \<Rightarrow> exn + 'a list" where
  "gather [] = Inr []"
| "gather (r # rs) =
     (case r of
        Inl e \<Rightarrow> Inl e
      | Inr vs \<Rightarrow> (case gather rs of Inl e \<Rightarrow> Inl e | Inr ws \<Rightarrow> Inr (vs @ ws)))"

definition brute_force :: "kernel \<Rightarrow> real ndarray \<Rightarrow> real list \<Rightarrow> exn + fl list" where
  "brute_force f X L =
     gather (concat (map (\<lambda>i. concat (map (\<lambda>j. if i < j then [f (one_row X j) (rows X ! i) L]
                                                else [])
                                          [0 ..< nrows X]))
                         [0 ..< nrows X]))"

definition in_range :: "real list \<Rightarrow> fl \<Rightarrow> bool" where
  "in_range bins v = (1 < length bins \<and> \<not> fl_lt v (hd bins) \<and> fl_le v (last bins))"

section \<open>gr.py: the radial distribution function\<close>

text \<open>
  What \<open>_compute\<close> reads of the object: the trajectory (its \<open>grandcanonical\<close> flag
  and, frame by frame, the sides of the cell that \<open>read(i).cell.side\<close> returns; the
  number of frames is \<open>len(self.trajectory)\<close>), the two lists of position arrays, each
  with the identity of the list object (\<open>self._pos_0 is self._pos_1\<close> compares these),
  the stride \<open>skip\<close>, the sides \<open>side\<close> set by the constructor, and the bin edges
  \<open>grid\<close>.  It writes \<open>side\<close>, \<open>grid\<close> and \<open>value\<close>.
\<close>

record trajectory =
  grandcanonical :: bool
  cell_side :: "real list list"

record rdf =
  traj :: trajectory
  pos_0 :: "nat \<times> real ndarray list"
  pos_1 :: "nat \<times> real ndarray list"
  skip :: nat
  side :: "real list"
  grid :: "real list"
  rdf_value :: "fl list"

text \<open>\<open>numpy.average\<close> of a list of lengths: nan for the empty list.\<close>

definition np_average :: "nat list \<Rightarrow> fl" where
  "np_average ns = fl_div (Fin (real (sum_list ns))) (Fin (real (length ns)))"

text \<open>Lines 93 to 97: the populations \<open>N_0\<close> and \<open>N_1\<close>.\<close>

definition population :: "rdf \<Rightarrow> exn + fl \<times> fl" where
  "population self =
     (if grandcanonical (traj self) then
        Inr (np_average (map nrows (snd (pos_0 self))),
             np_average (map nrows (snd (pos_1 self))))
      else if snd (pos_0 self) = [] \<or> snd (pos_1 self) = [] then Inl IndexError
      else Inr (Fin (real (nrows (snd (pos_0 self) ! 0))),
                Fin (real (nrows (snd (pos_1 self) ! 0)))))"

text \<open>\<open>range(0, n, step)\<close> for a step that is not negative.\<close>

definition py_range :: "nat \<Rightarrow> nat \<Rightarrow> exn + nat list" where
  "py_range n step =
     (if step = 0 then Inl ValueError
      else Inr (map (\<lambda>k. k * step) [0 ..< (n + step - 1) div step]))"

text \<open>Lines 105 to 110: the histogram of one frame, by the mode of the two roles.\<close>

definition frame_hist :: "fpu \<Rightarrow> rdf \<Rightarrow> real list \<Rightarrow> nat \<Rightarrow> exn + int list" where
  "frame_hist fp self r i =
     (if fst (pos_0 self) = fst (pos_1 self) then
        pairs_newton_hist (gr_kernel fp) (snd (pos_0 self) ! i) (snd (pos_1 self) ! i)
          (cell_side (traj self) ! i) r
      else
        pairs_hist (gr_kernel fp) (snd (pos_0 self) ! i) (snd (pos_1 self) ! i)
          (cell_side (traj self) ! i) r)"

text \<open>
  Lines 101 to 111: the loop over the sampled frames.  Its state is \<open>self.side\<close>,
  assigned for every sampled frame, and the list \<open>gr_all\<close>.
\<close>

fun frame_loop :: "fpu \<Rightarrow> rdf \<Rightarrow> real list \<Rightarrow> nat list \<Rightarrow> real list \<times> int list list
    \<Rightarrow> exn + real list \<times> int list list" where
  "frame_loop fp self r [] acc = Inr acc"
| "frame_loop fp self r (i # is) (side0, gr_all) =
     (if length (cell_side (traj self)) \<le> i then Inl IndexError
      else if length (snd (pos_0 self)) \<le> i then Inl IndexError
      else if nrows (snd (pos_0 self) ! i) = 0 then
        frame_loop fp self r is (cell_side (traj self) ! i, gr_all)
      else if length (snd (pos_1 self)) \<le> i then Inl IndexError
      else if nrows (snd (pos_1 self) ! i) = 0 then
        frame_loop fp self r is (cell_side (traj self) ! i, gr_all)
      else
        (case frame_hist fp self r i of
           Inl e \<Rightarrow> Inl e
         | Inr gr \<Rightarrow> frame_loop fp self r is (cell_side (traj self) ! i, gr_all @ [gr])))"

text \<open>
  Lines 113 to 122: the normalization.  \<open>numpy.average(gr_all, axis=0)\<close> of an
  empty list is the scalar nan, which the division spreads over the bins; otherwise it
  is the array of the means, bin by bin, of the histograms, which all have the length
  of the first.  The normalization is a fixed chain of scalar operations, written here
  with the unrounded ones.
\<close>

definition shell_volumes :: "real list \<Rightarrow> real list" where
  "shell_volumes r = map2 (\<lambda>hi lo. 4 * pi / 3 * (hi ^ 3 - lo ^ 3)) (tl r) (butlast r)"

definition average_axis0 :: "int list list \<Rightarrow> fl list option" where
  "average_axis0 gr_all =
     (if gr_all = [] then None
      else Some (map (\<lambda>k. Fin (real_of_int (sum_list (map (\<lambda>g. g ! k) gr_all))
                                / real (length gr_all)))
                     [0 ..< length (hd gr_all)]))"

definition bin_centers :: "real list \<Rightarrow> real list" where
  "bin_centers r = map2 (\<lambda>lo hi. (lo + hi) / 2) (butlast r) (tl r)"

definition normalization :: "rdf \<Rightarrow> real list \<Rightarrow> fl \<Rightarrow> fl \<Rightarrow> int list list \<Rightarrow> rdf" where
  "normalization self r N_0 N_1 gr_all =
     (let vol = shell_volumes r;
          rho = fl_div N_1 (Fin (prod_list (side self)));
          norm = (if fst (pos_0 self) = fst (pos_1 self)
                  then map (\<lambda>v. fl_mul (fl_mul (fl_mul rho (Fin v)) N_0) (Fin (1 / 2))) vol
                  else map (\<lambda>v. fl_mul (fl_mul rho (Fin v)) N_0) vol)
      in self\<lparr>grid := bin_centers r,
              rdf_value := (case average_axis0 gr_all of
                              None \<Rightarrow> map (\<lambda>n. fl_div NaN n) norm
                            | Some gr \<Rightarrow> map2 fl_div gr norm)\<rparr>)"

definition compute :: "fpu \<Rightarrow> rdf \<Rightarrow> exn + rdf" where
  "compute fp self =
     (case population self of
        Inl e \<Rightarrow> Inl e
      | Inr (N_0, N_1) \<Rightarrow>
         (case histogram [] (grid self) of
            Inl e \<Rightarrow> Inl e
          | Inr h \<Rightarrow>
             (case py_range (length (cell_side (traj self))) (skip self) of
                Inl e \<Rightarrow> Inl e
              | Inr frames \<Rightarrow>
                 (case frame_loop fp self (grid self) frames (side self, []) of
                    Inl e \<Rightarrow> Inl e
                  | Inr (side1, gr_all) \<Rightarrow>
                      Inr (normalization (self\<lparr>side := side1\<rparr>) (grid self) N_0 N_1 gr_all)))))"

text \<open>
  The words of the specification about the frames: a sampled frame is one the stride
  reaches, a processed frame a sampled one in which neither role is empty.
\<close>

definition sampled :: "rdf \<Rightarrow> nat list" where
  "sampled self =
     (case py_range (length (cell_side (traj self))) (skip self) of Inl e \<Rightarrow> [] | Inr fs \<Rightarrow> fs)"

definition degenerate :: "rdf \<Rightarrow> nat \<Rightarrow> bool" where
  "degenerate self i =
     (nrows (snd (pos_0 self) ! i) = 0 \<or> nrows (snd (pos_1 self) ! i) = 0)"

definition processed :: "rdf \<Rightarrow> nat list" where
  "processed self = filter (\<lambda>i. \<not> degenerate self i) (sampled self)"

definition processed_mean_count :: "rdf \<Rightarrow> real ndarray list \<Rightarrow> fl" where
  "processed_mean_count self frames = np_average (map (\<lambda>i. nrows (frames ! i)) (processed self))"

definition processed_hists :: "fpu \<Rightarrow> rdf \<Rightarrow> int list list" where
  "processed_hists fp self =
     map (\<lambda>i. case frame_hist fp self (grid self) i of Inl e \<Rightarrow> [] | Inr h \<Rightarrow> h)
         (processed self)"

definition last_sampled_side :: "rdf \<Rightarrow> real list" where
  "last_sampled_side self =
     (if sampled self = [] then side self else cell_side (traj self) ! last (sampled self))"

text \<open>
  A frame index is in the frames when the trajectory and both position lists have a
  frame there.
\<close>

definition in_frames :: "rdf \<Rightarrow> nat \<Rightarrow> bool" where
  "in_frames self i =
     (i < length (cell_side (traj self)) \<and> i < length (snd (pos_0 self))
      \<and> i < length (snd (pos_1 self)))"

text \<open>
  The population of a role as lines 93 to 97 take it: for a grand-canonical trajectory
  the mean of the particle counts over all the frames of the list, otherwise the count
  of the first frame.
\<close>

definition role_count :: "rdf \<Rightarrow> real ndarray list \<Rightarrow> fl" where
  "role_count self frames =
     (if grandcanonical (traj self) then np_average (map nrows frames)
      else Fin (real (nrows (frames ! 0))))"

text \<open>
  The normalizer of bin \<open>k\<close>: the density, times the volume of the shell, times the
  population of the first role, halved when the two roles are one.
\<close>

definition normalizer :: "rdf \<Rightarrow> nat \<Rightarrow> fl" where
  "normalizer self k =
     fl_mul (fl_mul (fl_mul
        (fl_div (role_count self (snd (pos_1 self))) (Fin (prod_list (last_sampled_side self))))
        (Fin (4 * pi / 3 * ((grid self ! Suc k) ^ 3 - (grid self ! k) ^ 3))))
        (role_count self (snd (pos_0 self))))
        (Fin (if fst (pos_0 self) = fst (pos_1 self) then 1 / 2 else 1))"

text \<open>
  Three small trajectories in one dimension, one role, box side 10 and three bins:
  a grand-canonical one of three frames read with a stride of 2, one of two identical
  frames, and one whose first frame has no particle.
\<close>

definition gc_example :: rdf where
  "gc_example =
     \<lparr>traj = \<lparr>grandcanonical = True, cell_side = [[10], [10], [10]]\<rparr>,
      pos_0 = (0, [\<lparr>ncols = 1, rows = [[0], [1]]\<rparr>,
                   \<lparr>ncols = 1, rows = [[0], [1], [2], [3]]\<rparr>,
                   \<lparr>ncols = 1, rows = [[0], [2]]\<rparr>]),
      pos_1 = (0, [\<lparr>ncols = 1, rows = [[0], [1]]\<rparr>,
                   \<lparr>ncols = 1, rows = [[0], [1], [2], [3]]\<rparr>,
                   \<lparr>ncols = 1, rows = [[0], [2]]\<rparr>]),
      skip = 2, side = [10], grid = [0, 1, 2, 3], rdf_value = []\<rparr>"

definition twin_example :: rdf where
  "twin_example =
     \<lparr>traj = \<lparr>grandcanonical = False, cell_side = [[10], [10]]\<rparr>,
      pos_0 = (0, [\<lparr>ncols = 1, rows = [[0], [1]]\<rparr>, \<lparr>ncols = 1, rows = [[0], [1]]\<rparr>]),
      pos_1 = (0, [\<lparr>ncols = 1, rows = [[0], [1]]\<rparr>, \<lparr>ncols = 1, rows = [[0], [1]]\<rparr>]),
      skip = 1, side = [10], grid = [0, 1, 2, 3], rdf_value = []\<rparr>"

definition gap_example :: rdf where
  "gap_example =
     \<lparr>traj = \<lparr>grandcanonical = True, cell_side = [[10], [10]]\<rparr>,
      pos_0 = (0, [\<lparr>ncols = 1, rows = []\<rparr>, \<lparr>ncols = 1, rows = [[0], [1]]\<rparr>]),
      pos_1 = (0, [\<lparr>ncols = 1, rows = []\<rparr>, \<lparr>ncols = 1, rows = [[0], [1]]\<rparr>]),
      skip = 1, side = [10], grid = [0, 1, 2, 3], rdf_value = []\<rparr>"

section \<open>Properties of the arithmetic\<close>

text \<open>
  Rounding to the nearest integer, and the rounding to binary64 on the values it represents.
\<close>

lemma rint_abs_le: "\<bar>of_int (rint a) - a\<bar> \<le> (1 / 2 :: real)"
proof (cases "frac a = 1 / 2 \<and> even \<lfloor>a\<rfloor>")
  case True
  then have "a - of_int \<lfloor>a\<rfloor> = 1 / 2"
    by (simp add: frac_def)
  moreover have "rint a = \<lfloor>a\<rfloor>"
    unfolding rint_def using True by (rule if_P)
  ultimately show ?thesis by simp
next
  case False
  then have "rint a = round a"
    unfolding rint_def by (rule if_not_P)
  then show ?thesis
    using of_int_round_abs_le[of a] by simp
qed

lemma rint_eqI:
  assumes "\<bar>x - of_int n\<bar> < 1 / 2"
  shows "rint x = n"
proof -
  have "\<bar>real_of_int (rint x) - of_int n\<bar> < 1"
    using rint_abs_le[of x] assms by linarith
  then have "\<bar>real_of_int (rint x - n)\<bar> < 1"
    by simp
  then have "\<bar>rint x - n\<bar> < 1"
    by linarith
  then show ?thesis by simp
qed

lemma rint_of_int [simp]: "rint (of_int n) = n"
  by (rule rint_eqI) simp

lemma rint_half:
  assumes "x = of_int n + 1 / 2"
  shows "rint x = (if even n then n else n + 1)"
proof -
  have fl: "\<lfloor>x\<rfloor> = n"
    unfolding assms by (rule floor_unique) simp_all
  have fr: "frac x = 1 / 2"
    unfolding frac_def fl by (simp add: assms)
  have rd: "round x = n + 1"
    unfolding round_def assms by (rule floor_unique) simp_all
  show ?thesis
  proof (cases "even n")
    case True
    then have "rint x = \<lfloor>x\<rfloor>"
      unfolding rint_def using fr fl by simp
    then show ?thesis using True fl by simp
  next
    case False
    then have "rint x = round x"
      unfolding rint_def using fl by simp
    then show ?thesis using False rd by simp
  qed
qed

lemma floor_log2_eq:
  assumes "0 < x" "2 powr (of_int e) \<le> x" "x < 2 powr (of_int e + 1)"
  shows "\<lfloor>log 2 x\<rfloor> = e"
  using assms by (simp add: floor_log_eq_powr_iff)

lemma binary64_dyadic:
  assumes m: "\<bar>m\<bar> < 2 ^ 53" and k: "k \<le> 1074"
  shows "binary64 (real_of_int m / 2 ^ k) = Fin (real_of_int m / 2 ^ k)"
proof (cases "m = 0")
  case True
  then show ?thesis by (simp add: binary64_def)
next
  case False
  define x where "x = real_of_int m / 2 ^ k"
  define e where "e = min 1023 (max (- 1022) \<lfloor>log 2 \<bar>x\<bar>\<rfloor>)"
  define u where "u = 2 powr (real_of_int e - 52)"
  have x0: "x \<noteq> 0" using False by (simp add: x_def)
  have xb: "\<bar>x\<bar> < 2 powr (53 - real k)"
  proof -
    have "\<bar>x\<bar> = \<bar>real_of_int m\<bar> / 2 ^ k" by (simp add: x_def abs_divide)
    also have "\<dots> < 2 ^ 53 / 2 ^ k"
      using m by (intro divide_strict_right_mono) (auto simp: abs_less_iff)
    also have "\<dots> = 2 powr (53 - real k)"
      by (simp add: powr_diff powr_realpow)
    finally show ?thesis .
  qed
  have "log 2 \<bar>x\<bar> < 53 - real k"
    using xb x0 by (simp add: log_less_iff)
  then have E: "\<lfloor>log 2 \<bar>x\<bar>\<rfloor> \<le> 52 - int k"
    by linarith
  have ek: "e \<le> 52 - int k"
    using E k unfolding e_def by simp
  define p where "p = nat (52 - int k - e)"
  have pe: "int p = 52 - int k - e" using ek by (simp add: p_def)
  have "x / u = real_of_int m * (2 powr (52 - real_of_int e) / 2 powr (real k))"
    by (simp add: x_def u_def powr_diff powr_realpow field_simps)
  also have "2 powr (52 - real_of_int e) / 2 powr (real k) = 2 powr (real_of_int (52 - int k - e))"
    by (simp add: powr_diff[symmetric] algebra_simps)
  also have "\<dots> = 2 ^ p"
    unfolding pe[symmetric] by (simp add: powr_realpow)
  finally have xu: "x / u = real_of_int (m * 2 ^ p)" by simp
  have upos: "0 < u" by (simp add: u_def)
  have r: "real_of_int (rint (x / u)) * u = x"
    unfolding xu rint_of_int using xu upos by (simp add: field_simps)
  have "\<bar>x\<bar> \<le> \<bar>real_of_int m\<bar>"
    by (simp add: x_def abs_divide field_simps mult_le_cancel_left1 abs_ge_zero)
  also have "\<dots> < 2 ^ 53" using m by (auto simp: abs_less_iff)
  also have "\<dots> \<le> (2 :: real) ^ 1024" by simp
  finally have big: "\<not> 2 ^ 1024 \<le> \<bar>x\<bar>" by simp
  show ?thesis
    using x0 big r unfolding binary64_def x_def[symmetric] Let_def e_def[symmetric] u_def[symmetric]
    by simp
qed

lemma binary64_eval:
  assumes "x \<noteq> 0" "2 powr (of_int e) \<le> \<bar>x\<bar>" "\<bar>x\<bar> < 2 powr (of_int e + 1)"
    "- 1022 \<le> e" "e \<le> 1023"
    "rint (x / 2 powr (of_int e - 52)) = j"
    "\<bar>real_of_int j * 2 powr (of_int e - 52)\<bar> < 2 ^ 1024"
  shows "binary64 x = Fin (real_of_int j * 2 powr (of_int e - 52))"
proof -
  have "\<lfloor>log 2 \<bar>x\<bar>\<rfloor> = e"
    using assms(1-3) by (intro floor_log2_eq) auto
  then have "min 1023 (max (- 1022) \<lfloor>log 2 \<bar>x\<bar>\<rfloor>) = e"
    using assms(4,5) by simp
  then show ?thesis
    using assms(1,6,7) by (simp add: binary64_def Let_def)
qed

lemma b64_102_125: "binary64 (102 / 125) = Fin (7349874591868649 / 9007199254740992)"
proof -
  have r: "rint ((102 / 125) / 2 powr (of_int (- 1) - 52)) = 7349874591868649"
    by (rule rint_eqI) (simp add: powr_minus field_simps)
  have "binary64 (102 / 125) = Fin (real_of_int 7349874591868649 * 2 powr (of_int (- 1) - 52))"
    by (rule binary64_eval[OF _ _ _ _ _ r]) (simp_all add: powr_minus)
  then show ?thesis by (simp add: powr_minus field_simps)
qed

lemma b64_vals:
  "binary64 1 = Fin 1" "binary64 (- 1) = Fin (- 1)" "binary64 (- 2) = Fin (- 2)"
  "binary64 4 = Fin 4" "binary64 5 = Fin 5" "binary64 16 = Fin 16" "binary64 17 = Fin 17"
  "binary64 (5 / 2) = Fin (5 / 2)" "binary64 (17 / 2) = Fin (17 / 2)"
  "binary64 (51 / 2) = Fin (51 / 2)" "binary64 (25 / 4) = Fin (25 / 4)"
  "binary64 (125 / 4) = Fin (125 / 4)"
  "binary64 (- (1657324662872343 / 9007199254740992)) = Fin (- (1657324662872343 / 9007199254740992))"
  using binary64_dyadic[of 1 0] binary64_dyadic[of "- 1" 0] binary64_dyadic[of "- 2" 0]
    binary64_dyadic[of 4 0] binary64_dyadic[of 5 0] binary64_dyadic[of 16 0]
    binary64_dyadic[of 17 0] binary64_dyadic[of 5 1] binary64_dyadic[of 17 1]
    binary64_dyadic[of 51 1] binary64_dyadic[of 25 2] binary64_dyadic[of 125 2]
    binary64_dyadic[of "- 1657324662872343" 53]
  by simp_all

lemma b64_zero [simp]: "binary64 0 = Fin 0"
  by (simp add: binary64_def)

lemma np64_sel [simp]: "rnd np64 = binary64" "reduce_add np64 = seq_sum binary64"
  by (simp_all add: np64_def)

lemma exact_fpu_sel [simp]: "rnd exact_fpu = Fin" "reduce_add exact_fpu = seq_sum Fin"
  by (simp_all add: exact_fpu_def)

lemma seq_sum_exact_acc: "foldl (radd Fin) (Fin a) (map Fin vs) = Fin (a + sum_list vs)"
  by (induction vs arbitrary: a) (simp_all add: add.assoc)

lemma seq_sum_exact: "seq_sum Fin (map Fin vs) = Fin (sum_list vs)"
  by (simp add: seq_sum_def seq_sum_exact_acc)

lemma seq_sum_zeros: "seq_sum binary64 (replicate n (Fin 0)) = Fin 0"
proof -
  have "foldl (radd binary64) (Fin 0) (replicate n (Fin 0)) = Fin 0"
    by (induction n) simp_all
  then show ?thesis by (simp add: seq_sum_def)
qed

lemma seq_sum_exact_zeros: "seq_sum Fin (replicate n (Fin 0)) = Fin 0"
proof -
  have "foldl (radd Fin) (Fin 0) (replicate n (Fin 0)) = Fin 0"
    by (induction n) simp_all
  then show ?thesis by (simp add: seq_sum_def)
qed

section \<open>Properties of the non-Gaussian kernel\<close>

lemma bdim_same [simp]: "bdim a a = Some a"
  by (simp add: bdim_def)

lemma bvec_same [simp]: "length v = d \<Longrightarrow> bvec d v = v"
  by (simp add: bvec_def)

lemma map2_bvec:
  assumes "\<forall>r\<in>set xs. length r = d" "\<forall>r\<in>set ys. length r = d"
  shows "map2 (\<lambda>r s. map2 f (bvec d r) (bvec d s)) xs ys = map2 (map2 f) xs ys"
  using assms by (induction xs ys rule: list_induct2') auto

lemma ew_arr_same_shape:
  assumes "wf_array a" "wf_array b" "ncols a = ncols b" "nrows a = nrows b"
  shows "ew_arr f a b = Inr \<lparr>ncols = ncols a, rows = map2 (map2 f) (rows a) (rows b)\<rparr>"
  using assms by (simp add: ew_arr_def nrows_def wf_array_def list_all_iff map2_bvec)

lemma sq_diffs_rows:
  "map (map (\<lambda>v. rmul (rnd fp) v v))
       (map2 (map2 (\<lambda>a b. rsub (rnd fp) (Fin a) (Fin b))) xs ys)
     = map2 (sq_diffs fp) xs ys"
  by (induction xs ys rule: list_induct2') (simp_all add: sq_diffs_def split_def)

lemma sq_sums_rows:
  "map (\<lambda>s. rmul (rnd fp) s s) (map (reduce_add fp) (map2 (sq_diffs fp) xs ys))
     = map2 (\<lambda>a b. rmul (rnd fp) (reduce_add fp (sq_diffs fp a b))
                                   (reduce_add fp (sq_diffs fp a b))) xs ys"
  by (induction xs ys rule: list_induct2') simp_all

text \<open>With two distinct objects of one shape, the kernel is its last line on the two moments.\<close>

lemma ngp_unfold:
  assumes "fst x \<noteq> fst y" "wf_array (snd x)" "wf_array (snd y)"
    "ncols (snd x) = ncols (snd y)" "nrows (snd x) = nrows (snd y)"
  shows "non_gaussian_parameter fp x y =
     Inr (rsub (rnd fp)
            (rdiv (rnd fp) (rmul (rnd fp) (Fin 3) (dr4_float fp (snd x) (snd y)))
               (rmul (rnd fp) (Fin 5)
                  (rmul (rnd fp) (dr2_float fp (snd x) (snd y)) (dr2_float fp (snd x) (snd y)))))
            (Fin 1))"
proof -
  have d: "ew_arr (\<lambda>a b. rsub (rnd fp) (Fin a) (Fin b)) (snd x) (snd y)
      = Inr \<lparr>ncols = ncols (snd x),
             rows = map2 (map2 (\<lambda>a b. rsub (rnd fp) (Fin a) (Fin b))) (rows (snd x)) (rows (snd y))\<rparr>"
    using assms(2-5) by (rule ew_arr_same_shape)
  have r: "rows (amap (\<lambda>v. rmul (rnd fp) v v)
             \<lparr>ncols = ncols (snd x),
              rows = map2 (map2 (\<lambda>a b. rsub (rnd fp) (Fin a) (Fin b))) (rows (snd x)) (rows (snd y))\<rparr>)
       = map2 (sq_diffs fp) (rows (snd x)) (rows (snd y))"
    using sq_diffs_rows[of fp "rows (snd x)" "rows (snd y)"] by (simp add: amap_def)
  show ?thesis
    by (simp only: non_gaussian_parameter_def d Let_def np_sum_def np_sum_axis1_def r
          dr2_float_def dr4_float_def sq_sums_rows sum.case if_not_P[OF assms(1)])
qed

lemma sq_diffs_exact:
  "sq_diffs exact_fpu a b = map Fin (map2 (\<lambda>u v. (u - v) ^ 2) a b)"
  by (induction a b rule: list_induct2')
     (simp_all add: sq_diffs_def rsub_def power2_eq_square)

lemma sum_list_concat_real:
  "sum_list (concat xss) = sum_list (map sum_list (xss :: real list list))"
  by (induction xss) auto

lemma concat_sq_diffs_exact:
  "concat (map2 (sq_diffs exact_fpu) xs ys)
     = map Fin (concat (map2 (\<lambda>a b. map2 (\<lambda>u v. (u - v) ^ 2) a b) xs ys))"
  by (induction xs ys rule: list_induct2') (simp_all add: sq_diffs_exact)

lemma sum_concat_sq_disp:
  "sum_list (concat (map2 (\<lambda>a b. map2 (\<lambda>u v. (u - v) ^ 2) a b) xs ys))
     = sum_list (map2 sq_disp xs (ys :: real list list))"
  by (induction xs ys rule: list_induct2') (simp_all add: sq_disp_def)

lemma dr2_float_exact:
  "0 < nrows x \<Longrightarrow> dr2_float exact_fpu x y = Fin (dr2_spec x y)"
proof -
  assume "0 < nrows x"
  have "reduce_add exact_fpu (concat (map2 (sq_diffs exact_fpu) (rows x) (rows y)))
      = Fin (sum_list (map2 sq_disp (rows x) (rows y)))"
    by (simp only: concat_sq_diffs_exact exact_fpu_sel seq_sum_exact sum_concat_sq_disp)
  then show ?thesis
    using \<open>0 < nrows x\<close> by (simp add: dr2_float_def dr2_spec_def)
qed

lemma row_moments_exact:
  "map2 (\<lambda>a b. rmul Fin (seq_sum Fin (sq_diffs exact_fpu a b))
                           (seq_sum Fin (sq_diffs exact_fpu a b))) xs ys
     = map Fin (map2 (\<lambda>a b. (sq_disp a b) ^ 2) xs ys)"
proof (induction xs ys rule: list_induct2')
  case (4 a xs b ys)
  have "seq_sum Fin (sq_diffs exact_fpu a b) = Fin (sq_disp a b)"
    by (simp only: sq_diffs_exact seq_sum_exact sq_disp_def)
  then show ?case
    using 4 by (simp add: power2_eq_square)
qed simp_all

lemma dr4_float_exact:
  "0 < nrows x \<Longrightarrow> dr4_float exact_fpu x y = Fin (dr4_spec x y)"
proof -
  assume "0 < nrows x"
  have "reduce_add exact_fpu
          (map2 (\<lambda>a b. rmul (rnd exact_fpu) (reduce_add exact_fpu (sq_diffs exact_fpu a b))
                                     (reduce_add exact_fpu (sq_diffs exact_fpu a b)))
                (rows x) (rows y))
      = Fin (sum_list (map2 (\<lambda>a b. (sq_disp a b) ^ 2) (rows x) (rows y)))"
    by (simp only: exact_fpu_sel row_moments_exact seq_sum_exact)
  then show ?thesis
    using \<open>0 < nrows x\<close> by (simp add: dr4_float_def dr4_spec_def)
qed




text \<open>
  Claim C5.  Called with one object as both arguments, the kernel returns exactly
  \<open>0.0\<close>: the identity test is its first statement, and no difference, sum or division
  is computed.  This holds for every array, every rounding and every summation order.
\<close>

theorem ngp_identity_zero: "non_gaussian_parameter fp x x = Inr (Fin 0)"
  by (simp add: non_gaussian_parameter_def)

lemma sq_diffs_same:
  "rnd fp 0 = Fin 0 \<Longrightarrow> sq_diffs fp a a = replicate (length a) (Fin 0)"
  by (induction a) (simp_all add: sq_diffs_def rsub_def)

lemma concat_zero_rows:
  "rnd fp 0 = Fin 0 \<Longrightarrow>
   \<exists>n. concat (map2 (sq_diffs fp) xs xs) = replicate n (Fin 0)"
proof (induction xs)
  case Nil
  then show ?case by simp
next
  case (Cons a xs)
  then obtain n where "concat (map2 (sq_diffs fp) xs xs) = replicate n (Fin 0)" by blast
  then have "concat (map2 (sq_diffs fp) (a # xs) (a # xs)) = replicate (length a + n) (Fin 0)"
    using Cons.prems by (simp add: sq_diffs_same replicate_add)
  then show ?case by blast
qed

lemma ngp_same_contents:
  assumes "fst x \<noteq> fst y" "snd x = snd y" "wf_array (snd x)"
    and z: "rnd fp 0 = Fin 0" and s: "\<And>n. reduce_add fp (replicate n (Fin 0)) = Fin 0"
  shows "non_gaussian_parameter fp x y = Inr NaN"
proof -
  obtain n where "concat (map2 (sq_diffs fp) (rows (snd x)) (rows (snd x))) = replicate n (Fin 0)"
    using concat_zero_rows[OF z] by blast
  then have dr2: "dr2_float fp (snd x) (snd x) = rdiv (rnd fp) (Fin 0) (Fin (real (nrows (snd x))))"
    by (simp add: dr2_float_def s)
  have "map2 (\<lambda>a b. rmul (rnd fp) (reduce_add fp (sq_diffs fp a b))
                                     (reduce_add fp (sq_diffs fp a b))) xs xs
         = replicate (length xs) (Fin 0)" for xs
    by (induction xs) (simp_all add: sq_diffs_same[OF z] s z)
  then have dr4: "dr4_float fp (snd x) (snd x) = rdiv (rnd fp) (Fin 0) (Fin (real (nrows (snd x))))"
    by (simp add: dr4_float_def s)
  have "non_gaussian_parameter fp x y =
     Inr (rsub (rnd fp)
            (rdiv (rnd fp) (rmul (rnd fp) (Fin 3) (dr4_float fp (snd x) (snd x)))
               (rmul (rnd fp) (Fin 5)
                  (rmul (rnd fp) (dr2_float fp (snd x) (snd x)) (dr2_float fp (snd x) (snd x)))))
            (Fin 1))"
    using ngp_unfold[of x y fp] assms(1-3) by simp
  then show ?thesis
    unfolding dr2 dr4
    by (cases "nrows (snd x) = 0") (simp_all add: z rsub_def)
qed

text \<open>
  Claim C10.  The short-circuit tests the identity of the objects, not their contents:
  for two distinct objects that hold the same array, the kernel goes through the moment
  computation, both moments are 0 (or \<open>0/0\<close> when the array has no row), and the final
  division is \<open>0/0\<close>: the result is nan, not \<open>0.0\<close>.  This holds for every arithmetic
  in which 0 rounds to 0 and a sum of zeros is 0, whatever the order of the sum; the
  unrounded arithmetic and binary64 are two such.
\<close>

theorem ngp_equal_contents_nan:
  assumes "fst x \<noteq> fst y" "snd x = snd y" "wf_array (snd x)"
  shows "(rnd fp 0 = Fin 0 \<and> (\<forall>n. reduce_add fp (replicate n (Fin 0)) = Fin 0)
            \<longrightarrow> non_gaussian_parameter fp x y = Inr NaN)
     \<and> non_gaussian_parameter exact_fpu x y = Inr NaN
     \<and> non_gaussian_parameter np64 x y = Inr NaN"
proof (intro conjI impI)
  assume "rnd fp 0 = Fin 0 \<and> (\<forall>n. reduce_add fp (replicate n (Fin 0)) = Fin 0)"
  then show "non_gaussian_parameter fp x y = Inr NaN"
    using ngp_same_contents[OF assms, of fp] by blast
next
  show "non_gaussian_parameter exact_fpu x y = Inr NaN"
    by (rule ngp_same_contents[OF assms]) (simp_all add: seq_sum_exact_zeros)
next
  show "non_gaussian_parameter np64 x y = Inr NaN"
    by (rule ngp_same_contents[OF assms]) (simp_all add: seq_sum_zeros)
qed

theorem ngp_equal_contents_nan_witness:
  "non_gaussian_parameter np64 (0, \<lparr>ncols = 2, rows = [[1, 2], [3, 4]]\<rparr>)
                               (1, \<lparr>ncols = 2, rows = [[1, 2], [3, 4]]\<rparr>) = Inr NaN"
  using ngp_equal_contents_nan [of "(0, \<lparr>ncols = 2, rows = [[1, 2], [3, 4]]\<rparr>)"
          "(1, \<lparr>ncols = 2, rows = [[1, 2], [3, 4]]\<rparr>)" np64]
  by (simp add: wf_array_def)

section \<open>Properties of the periodic distance kernel\<close>

lemma ew_vec_same_shape:
  assumes "wf_array a" "ncols a = length v"
  shows "ew_vec f a v = Inr \<lparr>ncols = length v, rows = map (\<lambda>r. map2 f r v) (rows a)\<rparr>"
  using assms by (simp add: ew_vec_def wf_array_def list_all_iff)

lemma wrap_row:
  "length a = length L \<Longrightarrow>
   map2 (rsub rd) a
     (map2 (\<lambda>x l. rmul rd x (Fin l))
        (map (fl_rint \<circ> (\<lambda>(x, l). rdiv rd x (Fin l))) (zip a L)) L)
   = map2 (\<lambda>a l. rsub rd a (rmul rd (fl_rint (rdiv rd a (Fin l))) (Fin l))) a L"
  by (induction a L rule: list_induct2) simp_all

text \<open>On rows of the dimension of the box, the wrapping line works component by component.\<close>

lemma minimum_image_same_shape:
  assumes "wf_array r" "ncols r = length L"
  shows "minimum_image fp r L =
    Inr \<lparr>ncols = length L,
         rows = map (\<lambda>row. map2 (\<lambda>a l. rsub (rnd fp) a
                                  (rmul (rnd fp) (fl_rint (rdiv (rnd fp) a (Fin l))) (Fin l)))
                               row L)
                    (rows r)\<rparr>"
proof -
  let ?q = "\<lparr>ncols = length L,
             rows = map (\<lambda>row. map2 (\<lambda>a l. rdiv (rnd fp) a (Fin l)) row L) (rows r)\<rparr>"
  let ?m = "\<lparr>ncols = length L,
             rows = map (\<lambda>row. map2 (\<lambda>a l. rmul (rnd fp) a (Fin l)) row L)
                        (rows (amap fl_rint ?q))\<rparr>"
  have 1: "ew_vec (\<lambda>a l. rdiv (rnd fp) a (Fin l)) r L = Inr ?q"
    using assms by (rule ew_vec_same_shape)
  have wfq: "wf_array (amap fl_rint ?q)" "ncols (amap fl_rint ?q) = length L"
    using assms by (auto simp: wf_array_def list_all_iff amap_def)
  have 2: "ew_vec (\<lambda>a l. rmul (rnd fp) a (Fin l)) (amap fl_rint ?q) L = Inr ?m"
    using wfq by (rule ew_vec_same_shape)
  have wfm: "wf_array ?m" "ncols r = ncols ?m" "nrows r = nrows ?m"
    using assms by (auto simp: wf_array_def list_all_iff amap_def nrows_def)
  have 3: "ew_arr (\<lambda>a b. rsub (rnd fp) a b) r ?m
     = Inr \<lparr>ncols = ncols r, rows = map2 (map2 (\<lambda>a b. rsub (rnd fp) a b)) (rows r) (rows ?m)\<rparr>"
    using assms(1) wfm by (rule ew_arr_same_shape)
  have 4: "map2 (map2 (\<lambda>a b. rsub (rnd fp) a b)) rs
             (map (\<lambda>row. map2 (\<lambda>a l. rmul (rnd fp) a (Fin l)) row L)
                (map (map fl_rint)
                   (map (\<lambda>row. map2 (\<lambda>a l. rdiv (rnd fp) a (Fin l)) row L) rs)))
           = map (\<lambda>row. map2 (\<lambda>a l. rsub (rnd fp) a
                                  (rmul (rnd fp) (fl_rint (rdiv (rnd fp) a (Fin l))) (Fin l)))
                               row L) rs"
    if "\<forall>row\<in>set rs. length row = length L" for rs
    using that by (induction rs) (simp_all add: wrap_row)
  have "minimum_image fp r L
     = Inr \<lparr>ncols = ncols r, rows = map2 (map2 (\<lambda>a b. rsub (rnd fp) a b)) (rows r) (rows ?m)\<rparr>"
    by (simp only: minimum_image_def 1 2 3 sum.case)
  also have "\<dots> = Inr \<lparr>ncols = length L,
         rows = map (\<lambda>row. map2 (\<lambda>a l. rsub (rnd fp) a
                                  (rmul (rnd fp) (fl_rint (rdiv (rnd fp) a (Fin l))) (Fin l)))
                               row L)
                    (rows r)\<rparr>"
    using assms 4[of "rows r"]
    by (simp add: amap_def wf_array_def list_all_iff)
  finally show ?thesis .
qed

lemma wrapped_exact:
  assumes "0 < l"
  shows "wrapped exact_fpu d l = Fin (d - of_int (rint (d / l)) * l)"
    and "\<bar>d - of_int (rint (d / l)) * l\<bar> \<le> l / 2"
proof -
  show "wrapped exact_fpu d l = Fin (d - of_int (rint (d / l)) * l)"
    using assms by (simp add: wrapped_def rsub_def)
  have "d - of_int (rint (d / l)) * l = - (of_int (rint (d / l)) - d / l) * l"
    using assms by (simp add: field_simps)
  then have "\<bar>d - of_int (rint (d / l)) * l\<bar> = \<bar>of_int (rint (d / l)) - d / l\<bar> * l"
    using assms by (simp add: abs_mult)
  also have "\<dots> \<le> (1 / 2) * l"
    using rint_abs_le[of "d / l"] assms by (intro mult_right_mono) auto
  finally show "\<bar>d - of_int (rint (d / l)) * l\<bar> \<le> l / 2"
    by simp
qed



lemma b64_q: "binary64 (- (15 / 4) / (5404319552844595 / 18014398509481984)) = Fin (- (25 / 2))"
proof -
  have r: "rint ((- (15 / 4) / (5404319552844595 / 18014398509481984)) / 2 powr (of_int 3 - 52))
      = - 7036874417766400"
    by (rule rint_eqI) (simp add: powr_minus field_simps)
  have "binary64 (- (15 / 4) / (5404319552844595 / 18014398509481984))
      = Fin (real_of_int (- 7036874417766400) * 2 powr (of_int 3 - 52))"
    by (rule binary64_eval[OF _ _ _ _ _ r]) (simp_all add: powr_minus)
  then show ?thesis by (simp add: powr_minus field_simps)
qed

lemma rint_m25_2: "rint (- (25 / 2)) = - 12"
  using rint_half[of "- (25 / 2)" "- 13"] by simp

lemma b64_m: "binary64 (- 12 * (5404319552844595 / 18014398509481984))
     = Fin (- (2026619832316723 / 562949953421312))"
proof -
  have r: "rint ((- 12 * (5404319552844595 / 18014398509481984)) / 2 powr (of_int 1 - 52))
      = - 8106479329266892"
    using rint_half[of "(- 12 * (5404319552844595 / 18014398509481984)) / 2 powr (of_int 1 - 52)"
                       "- 8106479329266893"]
    by (simp add: powr_minus field_simps)
  have "binary64 (- 12 * (5404319552844595 / 18014398509481984))
      = Fin (real_of_int (- 8106479329266892) * 2 powr (of_int 1 - 52))"
    by (rule binary64_eval[OF _ _ _ _ _ r]) (simp_all add: powr_minus)
  then show ?thesis by (simp add: powr_minus field_simps)
qed

lemma b64_w: "binary64 (- (84442493013197 / 562949953421312)) = Fin (- (84442493013197 / 562949953421312))"
  using binary64_dyadic[of "- 84442493013197" 49] by simp

lemma wrapped_np64:
  "wrapped np64 (- (15 / 4)) (5404319552844595 / 18014398509481984)
     = Fin (- (84442493013197 / 562949953421312))"
proof -
  have "wrapped np64 (- (15 / 4)) (5404319552844595 / 18014398509481984)
     = rsub binary64 (Fin (- (15 / 4)))
         (rmul binary64 (fl_rint (Fin (- (25 / 2)))) (Fin (5404319552844595 / 18014398509481984)))"
    using b64_q by (simp add: wrapped_def)
  also have "\<dots> = rsub binary64 (Fin (- (15 / 4))) (Fin (- (2026619832316723 / 562949953421312)))"
    using b64_m by (simp add: rint_m25_2)
  also have "\<dots> = Fin (- (84442493013197 / 562949953421312))"
    using b64_w by (simp add: rsub_def)
  finally show ?thesis .
qed


section \<open>Properties of analyze\<close>

text \<open>
  Claim C9.  Whenever the derivation of the secondary statistic fails, for whatever
  reason (the helper raises, or its report has no second entry), \<open>analyze\<close> raises
  nothing and returns the object as it was: the \<open>results\<close> dictionary is unchanged,
  no \<open>t_star\<close> or \<open>a2_star\<close> entry is written.
\<close>

theorem analyze_failure_silent:
  assumes "secondary_statistic ifabsmm self = Inl e"
  shows "analyze ifabsmm self = Inr self"
  using assms by (simp add: analyze_def)

theorem analyze_failure_silent_witness:
  "analyze (\<lambda>g v. Inl (Exception ''empty curve''))
           \<lparr>ngp_grid = [], ngp_value = [], results = Map.empty\<rparr>
     = Inr \<lparr>ngp_grid = [], ngp_value = [], results = Map.empty\<rparr>"
  using analyze_failure_silent [of "\<lambda>g v. Inl (Exception ''empty curve'')"
          "\<lparr>ngp_grid = [], ngp_value = [], results = Map.empty\<rparr>" "Exception ''empty curve''"]
  by (simp add: secondary_statistic_def)

section \<open>Properties of the pair histograms\<close>

lemma length_ssi [simp]: "length (search_sorted_inclusive a v) = length v"
  by (cases v rule: rev_cases) (simp_all add: search_sorted_inclusive_def)

lemma length_np_diff [simp]: "length (np_diff c) = length c - 1"
  by (simp add: np_diff_def)

lemma ssi_append:
  "search_sorted_inclusive (a @ b) v
     = map2 (\<lambda>p q. p + q) (search_sorted_inclusive a v) (search_sorted_inclusive b v)"
  by (rule nth_equalityI) (auto simp: search_sorted_inclusive_def nth_append nth_butlast)

lemma np_diff_add:
  "length c = length d \<Longrightarrow>
     np_diff (map2 (\<lambda>p q. p + q) c d) = map2 (\<lambda>p q. p + q) (np_diff c) (np_diff d)"
  by (rule nth_equalityI) (auto simp: np_diff_def nth_tl nth_butlast)

lemma hist_add_assoc: "hist_add (hist_add h a) b = hist_add h (hist_add a b)"
  by (rule nth_equalityI) (auto simp: hist_add_def)

lemma ssi_Nil: "search_sorted_inclusive [] v = replicate (length v) 0"
  by (cases v rule: rev_cases) (simp_all add: search_sorted_inclusive_def map_replicate_const replicate_append_same)

lemma length_counts [simp]: "length (counts a bins) = length bins - 1"
  by (simp add: counts_def)

lemma counts_append: "counts (a @ b) bins = hist_add (counts a bins) (counts b bins)"
  by (simp add: counts_def ssi_append np_diff_add hist_add_def)

lemma counts_Nil: "counts [] bins = replicate (length bins - 1) 0"
  by (rule nth_equalityI) (auto simp: counts_def ssi_Nil np_diff_def nth_tl nth_butlast)

lemma hist_add_zero: "length h = n \<Longrightarrow> hist_add h (replicate n 0) = h"
  by (rule nth_equalityI) (auto simp: hist_add_def)

lemma histogram_sorted: "sorted bins \<Longrightarrow> histogram a bins = Inr (counts a bins)"
  by (simp add: histogram_def)

lemma batch_values_append:
  "batch_values f x y L (is @ js) =
     (case batch_values f x y L is of
        Inl e \<Rightarrow> Inl e
      | Inr vs \<Rightarrow> (case batch_values f x y L js of Inl e \<Rightarrow> Inl e | Inr ws \<Rightarrow> Inr (vs @ ws)))"
  by (induction "is") (auto split: sum.splits)

lemma upt_split: "ib < n \<Longrightarrow> [ib ..< n] = [ib ..< min (ib + bl) n] @ [ib + bl ..< n]"
proof (cases "ib + bl \<le> n")
  case True
  then show ?thesis using upt_add_eq_append[of ib "ib + bl" "n - (ib + bl)"] by (simp add: min_def)
next
  case False
  then show ?thesis by (simp add: min_def)
qed

lemma newton_loop_all:
  assumes "sorted bins" "0 < bl" "length hist = length bins - 1"
  shows "newton_loop f x y L bins bl ib hist =
     (case batch_values f x y L [ib ..< nrows y - 1] of
        Inl e \<Rightarrow> Inl e
      | Inr vs \<Rightarrow> Inr (hist_add hist (counts vs bins)))"
  using assms
proof (induction f x y L bins bl ib hist rule: newton_loop.induct)
  case (1 f x y L bins bl ib hist)
  show ?case
  proof (cases "ib < nrows y - 1")
    case False
    then show ?thesis
      using 1(2-) by (subst newton_loop.simps) (simp add: counts_Nil hist_add_zero)
  next
    case True
    note sp = upt_split[OF True, of bl]
    show ?thesis
    proof (cases "batch_values f x y L [ib ..< min (ib + bl) (nrows y - 1)]")
      case (Inl e)
      then show ?thesis
        using True 1(3) by (subst newton_loop.simps, subst sp) (simp add: batch_values_append)
    next
      case (Inr fxy)
      have h: "histogram fxy bins = Inr (counts fxy bins)"
        using 1(2) by (rule histogram_sorted)
      have len: "length (hist_add hist (counts fxy bins)) = length bins - 1"
        using 1(4) by (simp add: hist_add_def)
      have IH: "newton_loop f x y L bins bl (ib + bl) (hist_add hist (counts fxy bins)) =
         (case batch_values f x y L [ib + bl ..< nrows y - 1] of
            Inl e \<Rightarrow> Inl e
          | Inr vs \<Rightarrow> Inr (hist_add (hist_add hist (counts fxy bins)) (counts vs bins)))"
        using 1(1)[OF _ True Inr h 1(2) 1(3) len] 1(3) by simp
      show ?thesis
        using True 1(3) Inr h IH
        by (subst newton_loop.simps, subst sp)
           (simp add: batch_values_append hist_add_assoc counts_append split: sum.splits)
    qed
  qed
qed

text \<open>
  Claim C3.  The batch length only cuts the outer loop into pieces: for any kernel,
  any two position arrays, any box and any bin edges, two batch lengths of at least 1
  give the same result, count for count (and the same exception when one is raised).
  The batch length that \<open>pairs_newton_hist\<close> computes is one of them.
\<close>

theorem batch_size_irrelevant:
  assumes "0 < bl" "0 < bl'"
  shows "pairs_newton_hist_batched bl f x y L bins = pairs_newton_hist_batched bl' f x y L bins
     \<and> (0 < nrows y \<longrightarrow> pairs_newton_hist f x y L bins = pairs_newton_hist_batched bl f x y L bins)"
proof (cases "sorted bins")
  case False
  then show ?thesis
    by (simp add: pairs_newton_hist_def pairs_newton_hist_batched_def histogram_def)
next
  case True
  have h0: "histogram [] bins = Inr (counts [] bins)"
    using True by (rule histogram_sorted)
  have all: "newton_loop f x y L bins b 0 (counts [] bins) =
     (case batch_values f x y L [0 ..< nrows y - 1] of
        Inl e \<Rightarrow> Inl e
      | Inr vs \<Rightarrow> Inr (hist_add (counts [] bins) (counts vs bins)))" if "0 < b" for b
    using True that by (rule newton_loop_all) simp
  show ?thesis
    using assms by (simp add: pairs_newton_hist_def pairs_newton_hist_batched_def h0 batch_length_def all)
qed

theorem batch_size_irrelevant_witness:
  "pairs_newton_hist_batched 1 (gr_kernel np64) \<lparr>ncols = 1, rows = [[0], [1], [3]]\<rparr>
       \<lparr>ncols = 1, rows = [[0], [1], [3]]\<rparr> [10] [0, 1, 2, 3]
     = pairs_newton_hist_batched 2 (gr_kernel np64) \<lparr>ncols = 1, rows = [[0], [1], [3]]\<rparr>
       \<lparr>ncols = 1, rows = [[0], [1], [3]]\<rparr> [10] [0, 1, 2, 3]
   \<and> pairs_newton_hist (gr_kernel np64) \<lparr>ncols = 1, rows = [[0], [1], [3]]\<rparr>
       \<lparr>ncols = 1, rows = [[0], [1], [3]]\<rparr> [10] [0, 1, 2, 3]
     = pairs_newton_hist_batched 1 (gr_kernel np64) \<lparr>ncols = 1, rows = [[0], [1], [3]]\<rparr>
       \<lparr>ncols = 1, rows = [[0], [1], [3]]\<rparr> [10] [0, 1, 2, 3]"
  using batch_size_irrelevant [of 1 2 "gr_kernel np64" "\<lparr>ncols = 1, rows = [[0], [1], [3]]\<rparr>"
          "\<lparr>ncols = 1, rows = [[0], [1], [3]]\<rparr>" "[10]" "[0, 1, 2, 3]"]
  by (simp add: nrows_def)

section \<open>The Newton-symmetric histogram and the brute-force one\<close>

text \<open>
  The kernel works row by row, whatever the shapes broadcasting accepts: it either
  refuses the shapes, for every array of that second dimension, or maps one function
  over the rows.
\<close>

lemma gr_kernel_rows:
  "\<exists>g. \<forall>rs. gr_kernel fp \<lparr>ncols = d, rows = rs\<rparr> y L
           = (case g of None \<Rightarrow> Inl ValueError | Some h \<Rightarrow> Inr (map h rs))"
proof (cases "bdim d (length y)")
  case None
  then have "\<forall>rs. gr_kernel fp \<lparr>ncols = d, rows = rs\<rparr> y L
           = (case None of None \<Rightarrow> Inl ValueError | Some h \<Rightarrow> Inr (map h rs))"
    by (simp add: gr_kernel_def ew_vec_def)
  then show ?thesis by blast
next
  case (Some d1)
  note d1 = Some
  show ?thesis
  proof (cases "bdim d1 (length L)")
    case None
    then have "\<forall>rs. gr_kernel fp \<lparr>ncols = d, rows = rs\<rparr> y L
           = (case None of None \<Rightarrow> Inl ValueError | Some h \<Rightarrow> Inr (map h rs))"
      using d1 by (simp add: gr_kernel_def ew_vec_def minimum_image_def)
    then show ?thesis by blast
  next
    case (Some d2)
    note d2 = Some
    show ?thesis
    proof (cases "bdim d2 (length L)")
      case None
      then have "\<forall>rs. gr_kernel fp \<lparr>ncols = d, rows = rs\<rparr> y L
           = (case None of None \<Rightarrow> Inl ValueError | Some h \<Rightarrow> Inr (map h rs))"
        using d1 d2 by (simp add: gr_kernel_def ew_vec_def minimum_image_def amap_def)
      then show ?thesis by blast
    next
      case (Some d3)
      note d3 = Some
      show ?thesis
      proof (cases "bdim d1 d3")
        case None
        then have "\<forall>rs. gr_kernel fp \<lparr>ncols = d, rows = rs\<rparr> y L
           = (case None of None \<Rightarrow> Inl ValueError | Some h \<Rightarrow> Inr (map h rs))"
          using d1 d2 d3
          by (simp add: gr_kernel_def ew_vec_def minimum_image_def amap_def ew_arr_def nrows_def)
        then show ?thesis by blast
      next
        case (Some d4)
        define A where "A = (\<lambda>r. map2 (\<lambda>a b. rsub (rnd fp) (Fin a) (Fin b)) (bvec d1 r) (bvec d1 y))"
        define M where "M = (\<lambda>r. map2 (\<lambda>a l. rmul (rnd fp) a (Fin l))
                   (bvec d3 (map fl_rint (map2 (\<lambda>a l. rdiv (rnd fp) a (Fin l)) (bvec d2 r) (bvec d2 L))))
                   (bvec d3 L))"
        define h where "h = (\<lambda>r. rsqrt (rnd fp) (reduce_add fp (map (\<lambda>v. rmul (rnd fp) v v)
                   (map2 (\<lambda>a b. rsub (rnd fp) a b) (bvec d4 (A r)) (bvec d4 (M (A r)))))))"
        have "gr_kernel fp \<lparr>ncols = d, rows = rs\<rparr> y L = Inr (map h rs)" for rs
          using d1 d2 d3 Some
          by (simp add: gr_kernel_def ew_vec_def minimum_image_def amap_def ew_arr_def nrows_def
                sum_sq_axis1_def zip_map_map zip_same_conv_map h_def A_def M_def comp_def
                case_prod_unfold)
        then have "\<forall>rs. gr_kernel fp \<lparr>ncols = d, rows = rs\<rparr> y L
           = (case Some h of None \<Rightarrow> Inl ValueError | Some h \<Rightarrow> Inr (map h rs))"
          by simp
        then show ?thesis by blast
      qed
    qed
  qed
qed

lemma gather_append:
  "gather (rs @ ss) =
     (case gather rs of Inl e \<Rightarrow> Inl e
      | Inr vs \<Rightarrow> (case gather ss of Inl e \<Rightarrow> Inl e | Inr ws \<Rightarrow> Inr (vs @ ws)))"
  by (induction rs) (auto split: sum.splits)

lemma gather_concat: "gather (concat rss) = gather (map gather rss)"
  by (induction rss) (auto simp: gather_append split: sum.splits)

lemma gather_Inr: "gather (map (\<lambda>x. Inr [h x]) xs) = Inr (map h xs)"
  by (induction xs) simp_all

lemma gather_Inl: "xs \<noteq> [] \<Longrightarrow> gather (map (\<lambda>x. Inl e) xs) = Inl e"
  by (cases xs) simp_all

lemma gr_kernel_gather:
  assumes "rs \<noteq> []"
  shows "gather (map (\<lambda>row. gr_kernel fp \<lparr>ncols = d, rows = [row]\<rparr> y L) rs)
       = gr_kernel fp \<lparr>ncols = d, rows = rs\<rparr> y L"
proof -
  obtain g where g: "\<And>rs. gr_kernel fp \<lparr>ncols = d, rows = rs\<rparr> y L
           = (case g of None \<Rightarrow> Inl ValueError | Some h \<Rightarrow> Inr (map h rs))"
    using gr_kernel_rows[of fp d y L] by blast
  show ?thesis
    using assms by (cases g) (simp_all add: g gather_Inr gather_Inl)
qed

lemma gr_kernel_shape:
  "\<exists>g. \<forall>x. ncols x = d \<longrightarrow> gr_kernel fp x y L
           = (case g of None \<Rightarrow> Inl ValueError | Some h \<Rightarrow> Inr (map h (rows x)))"
proof -
  obtain g where g: "\<And>rs. gr_kernel fp \<lparr>ncols = d, rows = rs\<rparr> y L
           = (case g of None \<Rightarrow> Inl ValueError | Some h \<Rightarrow> Inr (map h rs))"
    using gr_kernel_rows[of fp d y L] by blast
  have "gr_kernel fp x y L
           = (case g of None \<Rightarrow> Inl ValueError | Some h \<Rightarrow> Inr (map h (rows x)))"
    if "ncols x = d" for x :: "real ndarray"
    using that g[of "rows x"] by (cases x) simp
  then show ?thesis by blast
qed

lemma gr_kernel_length:
  assumes "gr_kernel fp x y L = Inr vs"
  shows "length vs = nrows x"
proof -
  obtain g where g: "gr_kernel fp x y L
           = (case g of None \<Rightarrow> Inl ValueError | Some h \<Rightarrow> Inr (map h (rows x)))"
    using gr_kernel_shape[of "ncols x" fp y L] by blast
  with assms show ?thesis
    by (cases g) (auto simp: nrows_def)
qed

lemma gr_kernel_error:
  assumes "gr_kernel fp x y L = Inl e"
  shows "e = ValueError"
proof -
  obtain g where g: "gr_kernel fp x y L
           = (case g of None \<Rightarrow> Inl ValueError | Some h \<Rightarrow> Inr (map h (rows x)))"
    using gr_kernel_shape[of "ncols x" fp y L] by blast
  with assms show ?thesis
    by (cases g) auto
qed

lemma concat_if_upt:
  "i < n \<Longrightarrow> concat (map (\<lambda>j. if i < j then [g j] else []) [0 ..< n]) = map g [Suc i ..< n]"
proof (induction n)
  case 0
  then show ?case by simp
next
  case (Suc n)
  show ?case
  proof (cases "i < n")
    case True
    then show ?thesis using Suc.IH by simp
  next
    case False
    then have "i = n" using Suc.prems by simp
    moreover have "concat (map (\<lambda>j. if n < j then [g j] else []) [0 ..< n]) = []"
      by (induction n) auto
    ultimately show ?thesis by simp
  qed
qed

lemma map_drop_nth: "map h (drop k xs) = map (\<lambda>j. h (xs ! j)) [k ..< length xs]"
  by (rule nth_equalityI) auto

lemma sum_np_diff: "c \<noteq> [] \<Longrightarrow> sum_list (np_diff c) = last c - hd c"
proof (induction c rule: induct_list012)
  case 1
  then show ?case by simp
next
  case (2 x)
  then show ?case by (simp add: np_diff_def)
next
  case (3 x y zs)
  have "np_diff (x # y # zs) = (y - x) # np_diff (y # zs)"
    by (simp add: np_diff_def)
  then show ?case using 3 by simp
qed

lemma count_diff:
  assumes "\<And>x. Q x \<Longrightarrow> P x"
  shows "int (length (filter P a)) - int (length (filter Q a)) = int (length (filter (\<lambda>x. \<not> Q x \<and> P x) a))"
  using assms by (induction a) auto

lemma fl_lt_le: "fl_lt v lo \<Longrightarrow> lo \<le> hi \<Longrightarrow> fl_le v hi"
  by (cases v) auto

lemma counts_total:
  assumes "sorted bins"
  shows "sum_list (counts a bins) = int (length (filter (in_range bins) a))"
proof (cases "1 < length bins")
  case False
  then have "length (counts a bins) = 0" by simp
  then have "counts a bins = []" by (simp only: length_0_conv)
  then show ?thesis using False by (simp add: in_range_def)
next
  case True
  then obtain bs e where b: "bins = bs @ [e]" "bs \<noteq> []"
    by (cases bins rule: rev_cases) auto
  have hdlast: "hd bins \<le> last bins"
    using assms b by (cases bs) (auto simp: sorted_append)
  have ne: "search_sorted_inclusive a bins \<noteq> []"
    using b by (simp add: search_sorted_inclusive_def)
  have h: "hd (search_sorted_inclusive a bins) = int (length (filter (\<lambda>x. fl_lt x (hd bins)) a))"
    using b by (cases bs) (simp_all add: search_sorted_inclusive_def)
  have l: "last (search_sorted_inclusive a bins) = int (length (filter (\<lambda>x. fl_le x (last bins)) a))"
    using b by (simp add: search_sorted_inclusive_def)
  have "sum_list (counts a bins) = int (length (filter (\<lambda>x. fl_le x (last bins)) a))
      - int (length (filter (\<lambda>x. fl_lt x (hd bins)) a))"
    unfolding counts_def sum_np_diff[OF ne] h l ..
  also have "\<dots> = int (length (filter (\<lambda>x. \<not> fl_lt x (hd bins) \<and> fl_le x (last bins)) a))"
    by (rule count_diff) (rule fl_lt_le[OF _ hdlast])
  also have "(\<lambda>x. \<not> fl_lt x (hd bins) \<and> fl_le x (last bins)) = in_range bins"
    using True by (auto simp: in_range_def fun_eq_iff)
  finally show ?thesis .
qed

lemma sum_below:
  "n \<le> m \<Longrightarrow> (\<Sum>i\<leftarrow>[0 ..< n]. m - Suc i) * 2 + n * (n + 1) = 2 * n * m"
proof (induction n)
  case 0
  then show ?case by simp
next
  case (Suc n)
  then obtain k where m: "m = Suc n + k"
    using le_Suc_ex by blast
  have "(\<Sum>i\<leftarrow>[0 ..< n]. m - Suc i) * 2 + n * (n + 1) = 2 * n * m"
    using Suc by simp
  then show ?case
    by (simp add: m algebra_simps)
qed


lemma gather_error: "gather rs = Inl e \<Longrightarrow> Inl e \<in> set rs"
  by (induction rs) (auto split: sum.splits)

lemma gather_no_error: "gather rs = Inr vs \<Longrightarrow> Inl e \<notin> set rs"
  by (induction rs arbitrary: vs) (auto split: sum.splits)

lemma gather_length:
  "gather rs = Inr vs \<Longrightarrow>
     length vs = sum_list (map (\<lambda>r. case r of Inl e \<Rightarrow> 0 | Inr v \<Rightarrow> length v) rs)"
  by (induction rs arbitrary: vs) (auto split: sum.splits)

lemma batch_values_gather:
  "\<forall>i\<in>set is. i < nrows y \<Longrightarrow>
     batch_values f x y L is = gather (map (\<lambda>i. f (slice_from (i + 1) x) (rows y ! i) L) is)"
  by (induction "is") (auto split: sum.splits)

lemma brute_force_rows:
  "brute_force f X L =
     gather (map (\<lambda>i. gather (map (\<lambda>j. f (one_row X j) (rows X ! i) L) [Suc i ..< nrows X]))
                 [0 ..< nrows X])"
proof -
  have "concat (map (\<lambda>i. concat (map (\<lambda>j. if i < j then [f (one_row X j) (rows X ! i) L] else [])
                                          [0 ..< nrows X])) [0 ..< nrows X])
      = concat (map (\<lambda>i. map (\<lambda>j. f (one_row X j) (rows X ! i) L) [Suc i ..< nrows X])
                    [0 ..< nrows X])"
    by (rule arg_cong[where f = concat], rule map_cong) (simp_all add: concat_if_upt)
  then show ?thesis
    by (simp add: brute_force_def gather_concat comp_def)
qed

lemma gr_kernel_slice:
  assumes "Suc i < nrows X"
  shows "gather (map (\<lambda>j. gr_kernel fp (one_row X j) y L) [Suc i ..< nrows X])
       = gr_kernel fp (slice_from (i + 1) X) y L"
proof -
  have ne: "drop (Suc i) (rows X) \<noteq> []"
    using assms by (simp add: nrows_def)
  have "map (\<lambda>j. gr_kernel fp (one_row X j) y L) [Suc i ..< nrows X]
      = map (\<lambda>row. gr_kernel fp \<lparr>ncols = ncols X, rows = [row]\<rparr> y L) (drop (Suc i) (rows X))"
    by (simp add: map_drop_nth nrows_def one_row_def)
  then show ?thesis
    using gr_kernel_gather[OF ne, of fp "ncols X" y L] by (simp add: slice_from_def)
qed

lemma brute_force_batch:
  assumes "0 < nrows X"
  shows "brute_force (gr_kernel fp) X L = batch_values (gr_kernel fp) X X L [0 ..< nrows X - 1]"
proof -
  let ?G = "\<lambda>i. gather (map (\<lambda>j. gr_kernel fp (one_row X j) (rows X ! i) L) [Suc i ..< nrows X])"
  have sp: "[0 ..< nrows X] = [0 ..< nrows X - 1] @ [nrows X - 1]"
    using assms by (cases "nrows X") simp_all
  have last: "?G (nrows X - 1) = Inr []"
    using assms by simp
  have eq: "map ?G [0 ..< nrows X - 1]
      = map (\<lambda>i. gr_kernel fp (slice_from (i + 1) X) (rows X ! i) L) [0 ..< nrows X - 1]"
    by (rule map_cong[OF refl], rule gr_kernel_slice) auto
  have "brute_force (gr_kernel fp) X L = gather (map ?G ([0 ..< nrows X - 1] @ [nrows X - 1]))"
    unfolding brute_force_rows by (subst sp) (rule refl)
  also have "\<dots> = gather (map ?G [0 ..< nrows X - 1])"
    by (simp only: map_append list.map gather_append last gather.simps sum.case append_Nil2)
       (simp split: sum.splits)
  also have "\<dots> = batch_values (gr_kernel fp) X X L [0 ..< nrows X - 1]"
    unfolding eq by (rule batch_values_gather[symmetric]) auto
  finally show ?thesis .
qed

lemma brute_force_error:
  assumes "brute_force (gr_kernel fp) X L = Inl e"
  shows "e = ValueError"
proof -
  from assms have "gather (map (\<lambda>i. gather (map (\<lambda>j. gr_kernel fp (one_row X j) (rows X ! i) L)
                      [Suc i ..< nrows X])) [0 ..< nrows X]) = Inl e"
    by (simp only: brute_force_rows)
  from gather_error[OF this] obtain i where
    "gather (map (\<lambda>j. gr_kernel fp (one_row X j) (rows X ! i) L) [Suc i ..< nrows X]) = Inl e"
    by auto
  from gather_error[OF this] obtain j where "gr_kernel fp (one_row X j) (rows X ! i) L = Inl e"
    by auto
  then show ?thesis by (rule gr_kernel_error)
qed

lemma length_brute_force:
  assumes "brute_force (gr_kernel fp) X L = Inr vs"
  shows "length vs = nrows X * (nrows X - 1) div 2"
proof (cases "nrows X = 0")
  case True
  then show ?thesis using assms by (simp add: brute_force_def)
next
  case False
  let ?n = "nrows X"
  let ?K = "\<lambda>i. gr_kernel fp (slice_from (i + 1) X) (rows X ! i) L"
  have "\<forall>i\<in>set [0 ..< ?n - 1]. i < nrows X"
    by auto
  then have "batch_values (gr_kernel fp) X X L [0 ..< ?n - 1] = gather (map ?K [0 ..< ?n - 1])"
    by (rule batch_values_gather)
  moreover have "brute_force (gr_kernel fp) X L = batch_values (gr_kernel fp) X X L [0 ..< ?n - 1]"
    using False by (intro brute_force_batch) simp
  ultimately have g: "gather (map ?K [0 ..< ?n - 1]) = Inr vs"
    using assms by simp
  have each: "(case ?K i of Inl e \<Rightarrow> 0 | Inr v \<Rightarrow> length v) = ?n - Suc i"
    if "i \<in> set [0 ..< ?n - 1]" for i
  proof (cases "?K i")
    case (Inl e)
    then have "Inl e \<in> set (map ?K [0 ..< ?n - 1])"
      using that by (auto simp: image_iff intro!: bexI[of _ i])
    then have False
      using gather_no_error[OF g] by blast
    then show ?thesis ..
  next
    case (Inr v)
    then show ?thesis
      using gr_kernel_length[OF Inr] by (simp add: nrows_def slice_from_def)
  qed
  have m: "map (\<lambda>i. case ?K i of Inl e \<Rightarrow> 0 | Inr v \<Rightarrow> length v) [0 ..< ?n - 1]
      = map (\<lambda>i. ?n - Suc i) [0 ..< ?n - 1]"
    by (rule map_cong[OF refl]) (rule each)
  have "length vs = sum_list (map (\<lambda>r. case r of Inl e \<Rightarrow> 0 | Inr v \<Rightarrow> length v)
                                  (map ?K [0 ..< ?n - 1]))"
    by (rule gather_length[OF g])
  also have "\<dots> = sum_list (map (\<lambda>i. case ?K i of Inl e \<Rightarrow> 0 | Inr v \<Rightarrow> length v)
                                [0 ..< ?n - 1])"
    by (simp only: map_map comp_def)
  also have "\<dots> = (\<Sum>i\<leftarrow>[0 ..< ?n - 1]. ?n - Suc i)"
    by (simp only: m)
  finally have "length vs = (\<Sum>i\<leftarrow>[0 ..< ?n - 1]. ?n - Suc i)" .
  moreover have "(\<Sum>i\<leftarrow>[0 ..< ?n - 1]. ?n - Suc i) * 2 + (?n - 1) * (?n - 1 + 1) = 2 * (?n - 1) * ?n"
    by (rule sum_below) simp
  moreover have "(?n - 1) * (?n - 1 + 1) + ?n * (?n - 1) = 2 * (?n - 1) * ?n"
    using False by (cases ?n) (simp_all add: algebra_simps)
  ultimately have "length vs * 2 = ?n * (?n - 1)"
    by linarith
  then show ?thesis by simp
qed


lemma gr_kernel_total:
  assumes "wf_array x" "ncols x = length y" "length y = length L"
  shows "\<exists>vs. gr_kernel fp x y L = Inr vs"
  using assms
  by (simp add: gr_kernel_def ew_vec_def minimum_image_def ew_arr_def amap_def nrows_def)

lemma batch_values_total:
  assumes "wf_array X" "ncols X = length L" "\<forall>i\<in>set is. i < nrows X"
  shows "\<exists>vs. batch_values (gr_kernel fp) X X L is = Inr vs"
  using assms(3)
proof (induction "is")
  case Nil
  then show ?case by simp
next
  case (Cons i "is")
  have "wf_array (slice_from (i + 1) X)" "ncols (slice_from (i + 1) X) = length (rows X ! i)"
     "length (rows X ! i) = length L"
    using assms(1,2) Cons.prems
    by (auto simp: wf_array_def list_all_iff slice_from_def nrows_def dest: in_set_dropD)
  then obtain vs where "gr_kernel fp (slice_from (i + 1) X) (rows X ! i) L = Inr vs"
    using gr_kernel_total by blast
  moreover obtain ws where "batch_values (gr_kernel fp) X X L is = Inr ws"
    using Cons by auto
  ultimately show ?case
    using Cons.prems by simp
qed

lemma brute_force_total:
  assumes "wf_array X" "ncols X = length L" "0 < nrows X"
  shows "\<exists>vs. brute_force (gr_kernel fp) X L = Inr vs"
proof -
  have "\<forall>i\<in>set [0 ..< nrows X - 1]. i < nrows X"
    by auto
  from batch_values_total[OF assms(1,2) this] show ?thesis
    by (simp only: brute_force_batch[OF assms(3)])
qed

lemma pairs_newton_hist_brute:
  assumes "0 < nrows X" "sorted bins"
  shows "pairs_newton_hist (gr_kernel fp) X X L bins =
     (case brute_force (gr_kernel fp) X L of Inl e \<Rightarrow> Inl e | Inr vs \<Rightarrow> Inr (counts vs bins))"
proof -
  have bl: "batch_length X = Inr (max 1 (100000 div nrows X))"
    using assms(1) by (simp add: batch_length_def)
  have h0: "histogram [] bins = Inr (counts [] bins)"
    using assms(2) by (rule histogram_sorted)
  have z: "hist_add (counts [] bins) (counts vs bins) = counts vs bins" for vs
    using counts_append[of "[]" vs bins] by simp
  show ?thesis
    unfolding pairs_newton_hist_def h0 bl brute_force_batch[OF assms(1)]
    by (simp add: newton_loop_all[OF assms(2)] z split: sum.splits)
qed

lemma pairs_newton_hist_total:
  assumes "wf_array X" "ncols X = length L" "0 < nrows X" "sorted bins"
  shows "\<exists>h. pairs_newton_hist (gr_kernel fp) X X L bins = Inr h"
proof -
  obtain vs where "brute_force (gr_kernel fp) X L = Inr vs"
    using brute_force_total[OF assms(1-3)] by blast
  then show ?thesis
    by (simp add: pairs_newton_hist_brute[OF assms(3,4)])
qed

text \<open>
  Claim C2.  For a position array \<open>X\<close> that is not empty, any box \<open>L\<close> and any
  bin edges, the Newton-symmetric histogram of \<open>X\<close> against itself, computed with the
  periodic distance kernel (whatever the rounding), is the histogram of the brute-force
  list of the kernel's distances over all index pairs \<open>i < j\<close>: the same counts, bin
  for bin, and an exception exactly when the brute-force computation or the histogram
  of its values raises one.  When the brute-force list exists it has
  \<open>N * (N - 1) / 2\<close> entries, and for edges that do not decrease the counts add up to
  the number of its entries that lie in the range of the edges: no pair is counted
  twice and no particle is paired with itself.  The brute-force list exists whenever
  the rows of \<open>X\<close> have the dimension of the box.
\<close>

theorem newton_equals_brute_force:
  assumes "0 < nrows X"
  shows "pairs_newton_hist (gr_kernel fp) X X L bins =
       (case brute_force (gr_kernel fp) X L of Inl e \<Rightarrow> Inl e | Inr vs \<Rightarrow> histogram vs bins)
     \<and> (\<forall>vs. brute_force (gr_kernel fp) X L = Inr vs \<longrightarrow>
           length vs = nrows X * (nrows X - 1) div 2 \<and>
           (sorted bins \<longrightarrow>
              (\<exists>h. pairs_newton_hist (gr_kernel fp) X X L bins = Inr h \<and>
                   length h = length bins - 1 \<and>
                   sum_list h = int (length (filter (in_range bins) vs)))))
     \<and> (wf_array X \<and> ncols X = length L \<longrightarrow> (\<exists>vs. brute_force (gr_kernel fp) X L = Inr vs))"
proof (intro conjI allI impI)
  show "pairs_newton_hist (gr_kernel fp) X X L bins =
       (case brute_force (gr_kernel fp) X L of Inl e \<Rightarrow> Inl e | Inr vs \<Rightarrow> histogram vs bins)"
  proof (cases "sorted bins")
    case True
    then show ?thesis
      by (simp add: pairs_newton_hist_brute[OF assms] histogram_sorted cong: sum.case_cong)
  next
    case False
    then have l: "pairs_newton_hist (gr_kernel fp) X X L bins = Inl ValueError"
      by (simp add: pairs_newton_hist_def histogram_def)
    show ?thesis
    proof (cases "brute_force (gr_kernel fp) X L")
      case (Inl e)
      then show ?thesis
        using l brute_force_error[OF Inl] by simp
    next
      case (Inr vs)
      then show ?thesis
        using l False by (simp add: histogram_def)
    qed
  qed
next
  fix vs
  assume "brute_force (gr_kernel fp) X L = Inr vs"
  then show "length vs = nrows X * (nrows X - 1) div 2"
    by (rule length_brute_force)
next
  fix vs
  assume b: "brute_force (gr_kernel fp) X L = Inr vs" and s: "sorted bins"
  have "pairs_newton_hist (gr_kernel fp) X X L bins = Inr (counts vs bins)"
    using b by (simp add: pairs_newton_hist_brute[OF assms s])
  then show "\<exists>h. pairs_newton_hist (gr_kernel fp) X X L bins = Inr h \<and>
                   length h = length bins - 1 \<and>
                   sum_list h = int (length (filter (in_range bins) vs))"
    using s by (simp add: counts_total)
next
  assume "wf_array X \<and> ncols X = length L"
  then show "\<exists>vs. brute_force (gr_kernel fp) X L = Inr vs"
    using brute_force_total[of X L fp] assms by blast
qed

theorem newton_equals_brute_force_witness:
  "pairs_newton_hist (gr_kernel np64) \<lparr>ncols = 1, rows = [[0], [1], [3]]\<rparr>
       \<lparr>ncols = 1, rows = [[0], [1], [3]]\<rparr> [10] [0, 1, 2, 3]
     = (case brute_force (gr_kernel np64) \<lparr>ncols = 1, rows = [[0], [1], [3]]\<rparr> [10] of
          Inl e \<Rightarrow> Inl e | Inr vs \<Rightarrow> histogram vs [0, 1, 2, 3])
   \<and> (\<exists>vs. brute_force (gr_kernel np64) \<lparr>ncols = 1, rows = [[0], [1], [3]]\<rparr> [10] = Inr vs
          \<and> length vs = 3
          \<and> (\<exists>h. pairs_newton_hist (gr_kernel np64) \<lparr>ncols = 1, rows = [[0], [1], [3]]\<rparr>
                     \<lparr>ncols = 1, rows = [[0], [1], [3]]\<rparr> [10] [0, 1, 2, 3] = Inr h
                 \<and> length h = 3
                 \<and> sum_list h = int (length (filter (in_range [0, 1, 2, 3]) vs))))"
proof -
  let ?X = "\<lparr>ncols = 1, rows = [[0], [1], [3 :: real]]\<rparr>"
  have n: "0 < nrows ?X"
    by (simp add: nrows_def)
  note t = newton_equals_brute_force [OF n, of np64 "[10]" "[0, 1, 2, 3]"]
  have "wf_array ?X \<and> ncols ?X = length [10 :: real]"
    by (simp add: wf_array_def)
  with t obtain vs where vs: "brute_force (gr_kernel np64) ?X [10] = Inr vs"
    by blast
  have s: "sorted [0, 1, 2, 3 :: real]"
    by simp
  note c = t [THEN conjunct2, THEN conjunct1, rule_format, OF vs]
  have len: "length vs = 3"
    using c [THEN conjunct1] by (simp add: nrows_def)
  obtain h where h: "pairs_newton_hist (gr_kernel np64) ?X ?X [10] [0, 1, 2, 3] = Inr h"
      "length h = length [0, 1, 2, 3 :: real] - 1"
      "sum_list h = int (length (filter (in_range [0, 1, 2, 3]) vs))"
    using c [THEN conjunct2] s by blast
  have "length h = 3"
    using h(2) by simp
  with h(1,3) len vs t [THEN conjunct1] show ?thesis
    by blast
qed

section \<open>Properties of the radial distribution function\<close>

lemma frame_loop_skip:
  assumes "in_frames self i" "degenerate self i"
  shows "frame_loop fp self r (i # is) (side0, gr_all) = frame_loop fp self r is (cell_side (traj self) ! i, gr_all)"
  using assms by (auto simp: in_frames_def degenerate_def)

lemma frame_loop_keep:
  assumes "in_frames self i" "\<not> degenerate self i"
  shows "frame_loop fp self r (i # is) (side0, gr_all) =
     (case frame_hist fp self r i of Inl e \<Rightarrow> Inl e
      | Inr gr \<Rightarrow> frame_loop fp self r is (cell_side (traj self) ! i, gr_all @ [gr]))"
  using assms by (auto simp: in_frames_def degenerate_def)

lemma frame_loop_filter:
  assumes "\<forall>i\<in>set is. in_frames self i"
  shows "map_sum id snd (frame_loop fp self r is (s, g))
       = map_sum id snd (frame_loop fp self r (filter (\<lambda>i. \<not> degenerate self i) is) (s', g))"
  using assms
proof (induction "is" arbitrary: s s' g)
  case Nil
  then show ?case by simp
next
  case (Cons i "is")
  then have i: "in_frames self i" and rest: "\<forall>i\<in>set is. in_frames self i"
    by simp_all
  show ?case
  proof (cases "degenerate self i")
    case True
    then show ?thesis
      using Cons.IH[OF rest] by (simp add: frame_loop_skip[OF i True] del: frame_loop.simps)
  next
    case False
    then show ?thesis
      using Cons.IH[OF rest]
      by (simp add: frame_loop_keep[OF i False] del: frame_loop.simps split: sum.splits)
  qed
qed

text \<open>
  Claim C8.  A sampled frame in which either role has no particle is skipped: the loop
  goes on to the next frame with \<open>gr_all\<close> as it was, nothing is computed or
  appended for the frame and nothing is raised.  So the histograms the loop collects,
  or the exception it ends with, are those of the loop over the frames that are not
  degenerate.
\<close>

theorem degenerate_frame_skipped:
  assumes "in_frames self i" "degenerate self i" "\<forall>j\<in>set is. in_frames self j"
  shows "frame_loop fp self r (i # is) (side0, gr_all)
           = frame_loop fp self r is (cell_side (traj self) ! i, gr_all)
     \<and> map_sum id snd (frame_loop fp self r (i # is) (side0, gr_all))
           = map_sum id snd (frame_loop fp self r (filter (\<lambda>j. \<not> degenerate self j) is) (side0, gr_all))"
  using frame_loop_skip[OF assms(1,2)] frame_loop_filter[OF assms(3), of fp] by simp

theorem degenerate_frame_skipped_witness:
  "frame_loop np64 gap_example [0, 1, 2, 3] [0, 1] ([10], [])
     = frame_loop np64 gap_example [0, 1, 2, 3] [1] ([10], [])
   \<and> map_sum id snd (frame_loop np64 gap_example [0, 1, 2, 3] [0, 1] ([10], []))
     = map_sum id snd (frame_loop np64 gap_example [0, 1, 2, 3] [1] ([10], []))"
proof -
  have "in_frames gap_example 0" "degenerate gap_example 0" "\<forall>j\<in>set [1]. in_frames gap_example j"
    by (simp_all add: gap_example_def in_frames_def degenerate_def nrows_def)
  from degenerate_frame_skipped [OF this, of np64 "[0, 1, 2, 3]" "[10]" "[]"]
  have "frame_loop np64 gap_example [0, 1, 2, 3] [0, 1] ([10], [])
           = frame_loop np64 gap_example [0, 1, 2, 3] [1] (cell_side (traj gap_example) ! 0, [])"
    and "map_sum id snd (frame_loop np64 gap_example [0, 1, 2, 3] [0, 1] ([10], []))
           = map_sum id snd (frame_loop np64 gap_example [0, 1, 2, 3]
                (filter (\<lambda>j. \<not> degenerate gap_example j) [1]) ([10], []))"
    by blast+
  moreover have "cell_side (traj gap_example) ! 0 = [10]" "\<not> degenerate gap_example 1"
    by (simp_all add: gap_example_def degenerate_def nrows_def)
  ultimately show ?thesis
    by (simp del: frame_loop.simps)
qed

lemma frame_loop_Cons_cases:
  assumes "frame_loop fp self r (i # is) (s, g) = Inr res"
  shows "(degenerate self i \<and> frame_loop fp self r is (cell_side (traj self) ! i, g) = Inr res)
       \<or> (\<not> degenerate self i \<and>
           (\<exists>gr. frame_hist fp self r i = Inr gr \<and>
                 frame_loop fp self r is (cell_side (traj self) ! i, g @ [gr]) = Inr res))"
  using assms by (auto simp: degenerate_def split: if_splits sum.splits)

lemma frame_loop_result:
  assumes "frame_loop fp self r is (s, g) = Inr (s', g')"
  shows "s' = (if is = [] then s else cell_side (traj self) ! last is) \<and>
     g' = g @ map (\<lambda>i. case frame_hist fp self r i of Inl e \<Rightarrow> [] | Inr h \<Rightarrow> h)
                (filter (\<lambda>i. \<not> degenerate self i) is) \<and>
     (\<forall>i\<in>set (filter (\<lambda>i. \<not> degenerate self i) is). \<exists>h. frame_hist fp self r i = Inr h)"
  using assms
proof (induction "is" arbitrary: s g)
  case Nil
  then show ?case by simp
next
  case (Cons i "is")
  from frame_loop_Cons_cases[OF Cons.prems] show ?case
  proof (elim disjE conjE exE)
    assume d: "degenerate self i"
      and "frame_loop fp self r is (cell_side (traj self) ! i, g) = Inr (s', g')"
    from Cons.IH[OF this(2)] d show ?thesis by auto
  next
    fix gr
    assume d: "\<not> degenerate self i" and gr: "frame_hist fp self r i = Inr gr"
      and "frame_loop fp self r is (cell_side (traj self) ! i, g @ [gr]) = Inr (s', g')"
    from Cons.IH[OF this(3)] d gr show ?thesis by auto
  qed
qed

lemma average_two_same:
  "average_axis0 [h, h] = Some (map (\<lambda>c. Fin (real_of_int c)) h)"
  by (auto simp: average_axis0_def intro!: nth_equalityI)

lemma average_one:
  "average_axis0 [h] = Some (map (\<lambda>c. Fin (real_of_int c)) h)"
  by (auto simp: average_axis0_def intro!: nth_equalityI)

lemma length_hist_add [simp]: "length (hist_add a b) = min (length a) (length b)"
  by (simp add: hist_add_def)

lemma cross_loop_length:
  assumes "sorted bins" "length hist = length bins - 1" "cross_loop f x y L bins is hist = Inr h"
  shows "length h = length bins - 1"
  using assms(2,3)
proof (induction "is" arbitrary: hist)
  case Nil
  then show ?case by simp
next
  case (Cons i "is")
  from Cons.prems(2) obtain fxy where "cross_loop f x y L bins is (hist_add hist (counts fxy bins)) = Inr h"
    by (auto simp: histogram_sorted[OF assms(1)] split: if_splits sum.splits)
  moreover have "length (hist_add hist (counts fxy bins)) = length bins - 1"
    using Cons.prems(1) by simp
  ultimately show ?case using Cons.IH by blast
qed

lemma histogram_Inr: "histogram a bins = Inr h \<Longrightarrow> sorted bins \<and> h = counts a bins"
  by (auto simp: histogram_def split: if_splits)

lemma pairs_hist_length:
  assumes "pairs_hist f x y L bins = Inr h"
  shows "length h = length bins - 1"
proof -
  from assms obtain h0 where h0: "histogram [] bins = Inr h0"
    and c: "cross_loop f x y L bins [0 ..< nrows y] h0 = Inr h"
    by (auto simp: pairs_hist_def split: sum.splits)
  from histogram_Inr[OF h0] have "sorted bins" "length h0 = length bins - 1" by simp_all
  then show ?thesis using c by (rule cross_loop_length)
qed

lemma pairs_newton_hist_length:
  assumes "pairs_newton_hist f x y L bins = Inr h"
  shows "length h = length bins - 1"
proof -
  from assms obtain h0 bl where h0: "histogram [] bins = Inr h0"
    and bl: "batch_length y = Inr bl"
    and c: "newton_loop f x y L bins bl 0 h0 = Inr h"
    by (auto simp: pairs_newton_hist_def split: sum.splits)
  from histogram_Inr[OF h0] have s: "sorted bins" and l: "length h0 = length bins - 1" by simp_all
  from bl have "0 < bl" by (auto simp: batch_length_def split: if_splits)
  from newton_loop_all[OF s this l, of f x y L 0] c show ?thesis
    by (auto split: sum.splits simp: l)
qed

lemma frame_hist_length: "frame_hist fp self r i = Inr h \<Longrightarrow> length h = length r - 1"
  by (auto simp: frame_hist_def pairs_hist_length pairs_newton_hist_length split: if_splits)

lemma fl_mul_one [simp]: "fl_mul a (Fin 1) = a"
  by (cases a) auto

lemma population_role_count:
  "population self = Inr (N_0, N_1) \<Longrightarrow>
     N_0 = role_count self (snd (pos_0 self)) \<and> N_1 = role_count self (snd (pos_1 self))"
  by (auto simp: population_def role_count_def split: if_splits)

lemma length_shell_volumes [simp]: "length (shell_volumes r) = length r - 1"
  by (simp add: shell_volumes_def)

lemma shell_volumes_nth:
  "k < length r - 1 \<Longrightarrow> shell_volumes r ! k = 4 * pi / 3 * ((r ! Suc k) ^ 3 - (r ! k) ^ 3)"
  by (simp add: shell_volumes_def nth_tl nth_butlast)

lemma average_axis0_nth:
  assumes "gr_all \<noteq> []" "k < length (hd gr_all)"
  shows "\<exists>gr. average_axis0 gr_all = Some gr \<and> length gr = length (hd gr_all) \<and>
     gr ! k = Fin (real_of_int (sum_list (map (\<lambda>g. g ! k) gr_all)) / real (length gr_all))"
  using assms by (simp add: average_axis0_def)

lemma compute_unfold:
  assumes "compute fp self = Inr self'"
  shows "self' = normalization (self\<lparr>side := last_sampled_side self\<rparr>) (grid self)
            (role_count self (snd (pos_0 self))) (role_count self (snd (pos_1 self)))
            (processed_hists fp self)"
    and "\<forall>h\<in>set (processed_hists fp self). length h = length (grid self) - 1"
proof -
  from assms obtain N_0 N_1 h0 frames side1 gr_all where
    pop: "population self = Inr (N_0, N_1)"
    and range: "py_range (length (cell_side (traj self))) (skip self) = Inr frames"
    and loop: "frame_loop fp self (grid self) frames (side self, []) = Inr (side1, gr_all)"
    and res: "self' = normalization (self\<lparr>side := side1\<rparr>) (grid self) N_0 N_1 gr_all"
    by (auto simp: compute_def split: sum.splits prod.splits)
  have sam: "sampled self = frames"
    using range by (simp add: sampled_def)
  from frame_loop_result[OF loop]
  have side1: "side1 = last_sampled_side self"
    and gr_all: "gr_all = processed_hists fp self"
    and ok: "\<forall>i\<in>set (processed self). \<exists>h. frame_hist fp self (grid self) i = Inr h"
    by (simp_all add: last_sampled_side_def processed_hists_def processed_def sam)
  show "\<forall>h\<in>set (processed_hists fp self). length h = length (grid self) - 1"
  proof
    fix h assume "h \<in> set (processed_hists fp self)"
    then obtain i where i: "i \<in> set (processed self)"
      and h: "h = (case frame_hist fp self (grid self) i of Inl e \<Rightarrow> [] | Inr h \<Rightarrow> h)"
      unfolding processed_hists_def by auto
    from ok i obtain h' where h': "frame_hist fp self (grid self) i = Inr h'" by blast
    then show "length h = length (grid self) - 1"
      using h frame_hist_length[OF h'] by simp
  qed
  show "self' = normalization (self\<lparr>side := last_sampled_side self\<rparr>) (grid self)
            (role_count self (snd (pos_0 self))) (role_count self (snd (pos_1 self)))
            (processed_hists fp self)"
    using res population_role_count[OF pop] side1 gr_all by simp
qed

lemma normalization_two_same:
  "normalization self r N_0 N_1 [h, h] = normalization self r N_0 N_1 [h]"
  by (simp add: average_two_same average_one normalization_def)

lemma compute_bin:
  assumes "compute fp self = Inr self'" "k < length (grid self) - 1"
  shows "rdf_value self' ! k =
     fl_div (if processed self = [] then NaN
             else Fin (real_of_int (sum_list (map (\<lambda>h. h ! k) (processed_hists fp self)))
                       / real (length (processed self))))
       (normalizer self k)"
proof -
  note u = compute_unfold [OF assms(1)]
  let ?gr_all = "processed_hists fp self"
  let ?normk = "normalizer self k"
  have lenp: "length ?gr_all = length (processed self)"
    by (simp add: processed_hists_def)
  have val_none: "rdf_value self' ! k = NaN" if "average_axis0 ?gr_all = None"
    unfolding u(1) normalization_def Let_def using that assms(2) by simp
  have val_some: "rdf_value self' ! k = fl_div (gr ! k) ?normk"
    if "average_axis0 ?gr_all = Some gr" "length gr = length (grid self) - 1" for gr
    unfolding u(1) normalization_def Let_def using that assms(2)
    by (simp add: shell_volumes_nth normalizer_def)
  show ?thesis
  proof (cases "processed self = []")
    case True
    then have "?gr_all = []"
      using lenp by simp
    then have "average_axis0 ?gr_all = None"
      by (simp add: average_axis0_def)
    from val_none [OF this] show ?thesis
      using True by simp
  next
    case False
    then have ne: "?gr_all \<noteq> []"
      using lenp by auto
    then have "hd ?gr_all \<in> set ?gr_all"
      by simp
    then have hd: "length (hd ?gr_all) = length (grid self) - 1"
      using u(2) by simp
    then have k: "k < length (hd ?gr_all)"
      using assms(2) by simp
    from average_axis0_nth [OF ne k] obtain gr where
      gr: "average_axis0 ?gr_all = Some gr" "length gr = length (hd ?gr_all)"
        "gr ! k = Fin (real_of_int (sum_list (map (\<lambda>g. g ! k) ?gr_all)) / real (length ?gr_all))"
      by blast
    have "rdf_value self' ! k = fl_div (gr ! k) ?normk"
      using gr(1) gr(2) [unfolded hd] by (rule val_some)
    then show ?thesis
      unfolding gr(3) using False lenp by simp
  qed
qed

text \<open>
  The kernel and the Newton-symmetric histogram of the frames of the examples, in
  binary64: the quotients \<open>1/10\<close> and \<open>2/10\<close> round to numbers whose nearest
  integer is 0, and the other operations are exact.
\<close>

lemma b64_tenth: "binary64 (1 / 10) = Fin (3602879701896397 / 36028797018963968)"
proof -
  have r: "rint ((1 / 10) / 2 powr (of_int (- 4) - 52)) = 7205759403792794"
    by (rule rint_eqI) (simp add: powr_minus field_simps)
  have "binary64 (1 / 10) = Fin (real_of_int 7205759403792794 * 2 powr (of_int (- 4) - 52))"
    by (rule binary64_eval[OF _ _ _ _ _ r]) (simp_all add: powr_minus)
  then show ?thesis by (simp add: powr_minus field_simps)
qed

lemma b64_fifth: "binary64 (1 / 5) = Fin (3602879701896397 / 18014398509481984)"
proof -
  have r: "rint ((1 / 5) / 2 powr (of_int (- 3) - 52)) = 7205759403792794"
    by (rule rint_eqI) (simp add: powr_minus field_simps)
  have "binary64 (1 / 5) = Fin (real_of_int 7205759403792794 * 2 powr (of_int (- 3) - 52))"
    by (rule binary64_eval[OF _ _ _ _ _ r]) (simp_all add: powr_minus)
  then show ?thesis by (simp add: powr_minus field_simps)
qed

lemma rint_small: "rint (3602879701896397 / 36028797018963968) = 0"
  "rint (3602879701896397 / 18014398509481984) = 0"
  by (rule rint_eqI, simp)+

lemma b64_two: "binary64 2 = Fin 2"
  using binary64_dyadic[of 2 0] by simp

lemma kernel_one: "gr_kernel np64 \<lparr>ncols = 1, rows = [[1]]\<rparr> [0] [10] = Inr [Fin 1]"
  by (simp add: gr_kernel_def ew_vec_def minimum_image_def ew_arr_def amap_def nrows_def
        sum_sq_axis1_def rsub_def seq_sum_def b64_vals b64_tenth rint_small)

lemma kernel_two: "gr_kernel np64 \<lparr>ncols = 1, rows = [[2]]\<rparr> [0] [10] = Inr [Fin 2]"
proof -
  have "sqrt 4 = 2"
    using real_sqrt_abs[of 2] by simp
  then show ?thesis
    by (simp add: gr_kernel_def ew_vec_def minimum_image_def ew_arr_def amap_def nrows_def
        sum_sq_axis1_def rsub_def seq_sum_def b64_vals b64_two b64_fifth rint_small)
qed

lemma newton_one:
  "pairs_newton_hist (gr_kernel np64) \<lparr>ncols = 1, rows = [[0], [1]]\<rparr>
      \<lparr>ncols = 1, rows = [[0], [1]]\<rparr> [10] [0, 1, 2, 3] = Inr [0, 1, 0]"
proof -
  have n: "0 < nrows \<lparr>ncols = 1, rows = [[0], [1 :: real]]\<rparr>"
    by (simp add: nrows_def)
  have s: "sorted [0, 1, 2, 3 :: real]"
    by simp
  have "brute_force (gr_kernel np64) \<lparr>ncols = 1, rows = [[0], [1]]\<rparr> [10] = Inr [Fin 1]"
    unfolding brute_force_batch[OF n] using kernel_one by (simp add: nrows_def slice_from_def)
  then show ?thesis
    unfolding pairs_newton_hist_brute[OF n s]
    by (simp add: counts_def search_sorted_inclusive_def np_diff_def)
qed

lemma newton_two:
  "pairs_newton_hist (gr_kernel np64) \<lparr>ncols = 1, rows = [[0], [2]]\<rparr>
      \<lparr>ncols = 1, rows = [[0], [2]]\<rparr> [10] [0, 1, 2, 3] = Inr [0, 0, 1]"
proof -
  have n: "0 < nrows \<lparr>ncols = 1, rows = [[0], [2 :: real]]\<rparr>"
    by (simp add: nrows_def)
  have s: "sorted [0, 1, 2, 3 :: real]"
    by simp
  have "brute_force (gr_kernel np64) \<lparr>ncols = 1, rows = [[0], [2]]\<rparr> [10] = Inr [Fin 2]"
    unfolding brute_force_batch[OF n] using kernel_two by (simp add: nrows_def slice_from_def)
  then show ?thesis
    unfolding pairs_newton_hist_brute[OF n s]
    by (simp add: counts_def search_sorted_inclusive_def np_diff_def)
qed

lemma mean_two_same:
  assumes "\<bar>c\<bar> < (2 :: int) ^ 52"
  shows "rdiv binary64 (seq_sum binary64 [binary64 (of_int c), binary64 (of_int c)]) (Fin 2)
       = Fin (of_int c)"
proof -
  have c: "binary64 (real_of_int c) = Fin (real_of_int c)"
    using binary64_dyadic[of c 0] assms by simp
  have "\<bar>2 * c\<bar> < (2 :: int) ^ 53"
    using assms by simp
  then have "binary64 (real_of_int (2 * c)) = Fin (real_of_int (2 * c))"
    using binary64_dyadic[of "2 * c" 0] by simp
  then have d: "binary64 (2 * real_of_int c) = Fin (2 * real_of_int c)"
    by simp
  show ?thesis
    by (simp add: seq_sum_def c d)
qed

text \<open>
  Claim C7.  The histograms of the processed frames are combined by their arithmetic
  mean, bin by bin, not by their sum: when \<open>_compute\<close> returns and at least one frame
  is processed, the value in bin \<open>k\<close> is the sum over the processed frames of the
  counts of that bin, divided by the number of processed frames, divided by the
  normalizer of the bin.  So when two frames are processed and their histograms are the
  same \<open>h\<close>, the result is the one of the normalization of the single histogram
  \<open>h\<close> with the same populations and box, and its value in bin \<open>k\<close> is \<open>h[k]\<close>
  (not \<open>2 h[k]\<close>) divided by the normalizer.  The mean of two equal counts is that
  count in binary64 as well: the sum and its half are exact.
\<close>

theorem frames_averaged_not_summed:
  assumes "compute fp self = Inr self'" "k < length (grid self) - 1"
  shows "(processed self \<noteq> [] \<longrightarrow>
            rdf_value self' ! k =
              fl_div (Fin (real_of_int (sum_list (map (\<lambda>h. h ! k) (processed_hists fp self)))
                           / real (length (processed self))))
                     (normalizer self k))
     \<and> (\<forall>h. processed_hists fp self = [h, h] \<longrightarrow>
            self' = normalization (self\<lparr>side := last_sampled_side self\<rparr>) (grid self)
                      (role_count self (snd (pos_0 self))) (role_count self (snd (pos_1 self))) [h]
            \<and> rdf_value self' ! k = fl_div (Fin (real_of_int (h ! k))) (normalizer self k))
     \<and> (\<forall>c :: int. \<bar>c\<bar> < 2 ^ 52 \<longrightarrow>
            rdiv binary64 (seq_sum binary64 [binary64 (of_int c), binary64 (of_int c)]) (Fin 2)
              = Fin (of_int c))"
proof (intro conjI impI allI)
  assume "processed self \<noteq> []"
  then show "rdf_value self' ! k =
              fl_div (Fin (real_of_int (sum_list (map (\<lambda>h. h ! k) (processed_hists fp self)))
                           / real (length (processed self))))
                     (normalizer self k)"
    using compute_bin[OF assms] by simp
next
  fix h
  assume h: "processed_hists fp self = [h, h]"
  note u = compute_unfold[OF assms(1)]
  show "self' = normalization (self\<lparr>side := last_sampled_side self\<rparr>) (grid self)
                      (role_count self (snd (pos_0 self))) (role_count self (snd (pos_1 self))) [h]"
    using u(1) unfolding h by (simp only: normalization_two_same)
next
  fix h
  assume h: "processed_hists fp self = [h, h]"
  have "length (processed_hists fp self) = length (processed self)"
    by (simp add: processed_hists_def)
  then have l: "length (processed self) = 2"
    unfolding h by simp
  then have ne: "processed self \<noteq> []"
    by auto
  show "rdf_value self' ! k = fl_div (Fin (real_of_int (h ! k))) (normalizer self k)"
    using compute_bin[OF assms] ne by (simp add: h l)
next
  fix c :: int
  assume "\<bar>c\<bar> < 2 ^ 52"
  then show "rdiv binary64 (seq_sum binary64 [binary64 (of_int c), binary64 (of_int c)]) (Fin 2)
              = Fin (of_int c)"
    by (rule mean_two_same)
qed

lemma twin_hists: "processed_hists np64 twin_example = [[0, 1, 0], [0, 1, 0]]"
  by (simp add: processed_hists_def processed_def sampled_def py_range_def degenerate_def
        twin_example_def frame_hist_def nrows_def newton_one[unfolded One_nat_def])

lemma twin_compute: "\<exists>self'. compute np64 twin_example = Inr self'"
  by (simp add: compute_def population_def py_range_def twin_example_def frame_hist_def nrows_def
        newton_one[unfolded One_nat_def] histogram_def)

theorem frames_averaged_not_summed_witness:
  "\<exists>self'. compute np64 twin_example = Inr self' \<and>
     processed_hists np64 twin_example = [[0, 1, 0], [0, 1, 0]] \<and>
     self' = normalization (twin_example\<lparr>side := [10]\<rparr>) [0, 1, 2, 3] (Fin 2) (Fin 2) [[0, 1, 0]] \<and>
     rdf_value self' ! 1 = fl_div (Fin 1) (normalizer twin_example 1) \<and>
     rdf_value self' ! 1 = fl_div (Fin ((1 + 1) / 2)) (normalizer twin_example 1) \<and>
     rdiv binary64 (seq_sum binary64 [binary64 1, binary64 1]) (Fin 2) = Fin 1"
proof -
  from twin_compute obtain self' where c: "compute np64 twin_example = Inr self'"
    by blast
  have k: "1 < length (grid twin_example) - 1"
    by (simp add: twin_example_def)
  note t = frames_averaged_not_summed [OF c k]
  have p: "processed twin_example = [0, 1]"
    by (simp add: twin_example_def processed_def sampled_def py_range_def degenerate_def nrows_def)
  have 1: "rdf_value self' ! 1 = fl_div (Fin ((1 + 1) / 2)) (normalizer twin_example 1)"
    using t [THEN conjunct1] by (simp add: p twin_hists)
  note t2 = t [THEN conjunct2, THEN conjunct1, rule_format, OF twin_hists]
  have 2: "self' = normalization (twin_example\<lparr>side := [10]\<rparr>) [0, 1, 2, 3] (Fin 2) (Fin 2) [[0, 1, 0]]"
    using t2 [THEN conjunct1]
    by (simp add: twin_example_def role_count_def last_sampled_side_def sampled_def py_range_def
          nrows_def)
  have 3: "rdf_value self' ! 1 = fl_div (Fin 1) (normalizer twin_example 1)"
    using t2 [THEN conjunct2] by simp
  have 4: "rdiv binary64 (seq_sum binary64 [binary64 1, binary64 1]) (Fin 2) = Fin 1"
    using t [THEN conjunct2, THEN conjunct2, rule_format, of 1] by simp
  show ?thesis
    using c twin_hists 1 2 3 4 by blast
qed

text \<open>
  Claim C1, as the code has it.  When \<open>_compute\<close> returns, the value in bin
  \<open>k\<close> is the mean over the processed frames of the histogram counts of that bin
  (nan when no frame is processed) divided by
  \<open>rho * vol[k] * N0 * (0.5 if self-pair else 1.0)\<close>, where
  \<open>vol[k] = 4 pi / 3 * (r[k+1]\<^sup>3 - r[k]\<^sup>3)\<close>, \<open>rho\<close> is \<open>N1\<close> divided by the
  product of the sides of the last sampled frame, and \<open>N0\<close>, \<open>N1\<close> are the
  populations of the two roles: for a grand-canonical trajectory the means of the counts
  over all the frames of the trajectory, otherwise the counts of the first frame.
\<close>

theorem compute_value:
  assumes "compute fp self = Inr self'" "k < length (grid self) - 1"
  shows "rdf_value self' ! k =
     fl_div (if processed self = [] then NaN
             else Fin (real_of_int (sum_list (map (\<lambda>h. h ! k) (processed_hists fp self)))
                       / real (length (processed self))))
       (fl_mul (fl_mul (fl_mul
           (fl_div (role_count self (snd (pos_1 self))) (Fin (prod_list (last_sampled_side self))))
           (Fin (4 * pi / 3 * ((grid self ! Suc k) ^ 3 - (grid self ! k) ^ 3))))
           (role_count self (snd (pos_0 self))))
           (Fin (if fst (pos_0 self) = fst (pos_1 self) then 1 / 2 else 1)))"
  using compute_bin [OF assms] by (simp only: normalizer_def)

lemma gc_hists: "processed_hists np64 gc_example = [[0, 1, 0], [0, 0, 1]]"
  by (simp add: processed_hists_def processed_def sampled_def py_range_def degenerate_def
        gc_example_def frame_hist_def nrows_def newton_one[unfolded One_nat_def] newton_two[unfolded One_nat_def])

lemma gc_compute: "\<exists>self'. compute np64 gc_example = Inr self'"
  by (simp add: compute_def population_def py_range_def gc_example_def frame_hist_def nrows_def
        newton_one[unfolded One_nat_def] newton_two[unfolded One_nat_def] histogram_def)

theorem compute_value_witness:
  "\<exists>self'. compute np64 gc_example = Inr self' \<and>
     processed_hists np64 gc_example = [[0, 1, 0], [0, 0, 1]] \<and>
     rdf_value self' ! 1 =
       fl_div (Fin (1 / 2)) (Fin (8 / 3 / 10 * (4 * pi / 3 * (2 ^ 3 - 1 ^ 3)) * (8 / 3) * (1 / 2)))"
proof -
  from gc_compute obtain self' where c: "compute np64 gc_example = Inr self'"
    by blast
  have k: "1 < length (grid gc_example) - 1"
    by (simp add: gc_example_def)
  have p: "processed gc_example = [0, 2]"
    by (simp add: gc_example_def processed_def sampled_def py_range_def degenerate_def nrows_def)
  have f: "role_count gc_example (snd (pos_0 gc_example)) = Fin (8 / 3)"
    "role_count gc_example (snd (pos_1 gc_example)) = Fin (8 / 3)"
    "last_sampled_side gc_example = [10]"
    "fst (pos_0 gc_example) = fst (pos_1 gc_example)"
    "grid gc_example ! Suc (Suc 0) = 2" "grid gc_example ! Suc 0 = 1"
    by (simp_all add: role_count_def last_sampled_side_def sampled_def py_range_def np_average_def
          nrows_def gc_example_def)
  have "rdf_value self' ! 1 =
       fl_div (Fin (1 / 2)) (Fin (8 / 3 / 10 * (4 * pi / 3 * (2 ^ 3 - 1 ^ 3)) * (8 / 3) * (1 / 2)))"
    using compute_value [OF c k] by (simp add: p f gc_hists)
  with c gc_hists show ?thesis by blast
qed

text \<open>
  Claim C1 as stated fails: the populations are not means over the processed frames.
  In the grand-canonical example the stride of 2 processes the frames 0 and 2, of two
  particles each, and the populations are the mean 8/3 over all three frames.
\<close>

theorem population_counterexample:
  "population gc_example = Inr (Fin (8 / 3), Fin (8 / 3))
   \<and> processed gc_example = [0, 2]
   \<and> processed_mean_count gc_example (snd (pos_0 gc_example)) = Fin 2
   \<and> processed_mean_count gc_example (snd (pos_1 gc_example)) = Fin 2
   \<and> population gc_example \<noteq>
       Inr (processed_mean_count gc_example (snd (pos_0 gc_example)),
            processed_mean_count gc_example (snd (pos_1 gc_example)))"
  by (simp add: gc_example_def population_def np_average_def nrows_def processed_def sampled_def
        py_range_def degenerate_def processed_mean_count_def)

end
